theory Spec2Isabelle
  imports Main "HOL-Library.Multiset"
begin

section \<open>The bounded blocking queue of BBQ.cpp\<close>

subsection \<open>The object\<close>

text \<open>
  A \<open>BBQ\<close> object has the members that BBQ.cpp names: the array \<open>m_items\<close>, the
  counters \<open>m_head\<close> and \<open>m_tail\<close>, the mutex \<open>m_mutex\<close> and the two condition
  variables \<open>m_itemAdded\<close> and \<open>m_itemRemoved\<close>.

  \<^item> \<open>m_items\<close> is the store behind the array: a value for every subscript. Which
    subscripts the code may use is decided where it subscripts (\<open>subscript\<close> below).
  \<^item> A condition variable is the list of the threads that are blocked in its \<open>wait\<close>;
    the order of the list means nothing.
  \<^item> \<open>m_mutex\<close> has no field. Both operations take it on entry and hold it until they
    return, except while blocked in \<open>wait\<close>; so from entry (or from waking up) to the
    next \<open>wait\<close> or the return a call runs alone on the object, and the model runs it
    as one step.
  \<^item> Items are C++ \<open>int\<close>s that are only stored and handed back, never computed with.
\<close>

text \<open>
  Modelled from the spec: the declarations of the members are in BBQ.h, which is not among
  the sources. The spec has \<open>head\<close> and \<open>tail\<close> as monotonically non-decreasing
  counters that do not wrap, so \<open>m_head\<close> and \<open>m_tail\<close> are unbounded integers here;
  and it has the storage as a buffer whose length is the capacity.
\<close>

type_synonym tid = nat

record BBQ =
  m_items :: "nat \<Rightarrow> int"
  m_head :: int
  m_tail :: int
  m_itemAdded :: "tid list"
  m_itemRemoved :: "tid list"

text \<open>
  What a call has done when it stops running: it has returned, or it is blocked in
  \<open>wait\<close> (the object is given with the caller among the waiters), or it has met
  behaviour C++ leaves undefined.
\<close>

datatype 'a outcome = Returned 'a | Suspended BBQ | Undefined

text \<open>
  \<open>BBQ::BBQ(): m_head(0), m_tail(0) {}\<close> takes no argument and writes the two counters.
  The array keeps whatever its memory held (\<open>mem\<close>); the condition variables start with
  nobody waiting.
\<close>

definition BBQ_ctor :: "(nat \<Rightarrow> int) \<Rightarrow> BBQ" where
  "BBQ_ctor mem =
     \<lparr>m_items = mem, m_head = 0, m_tail = 0, m_itemAdded = [], m_itemRemoved = []\<rparr>"

definition live_count :: "BBQ \<Rightarrow> int" where
  "live_count q = m_tail q - m_head q"

text \<open>
  Modelled from the spec: \<open>canInsert\<close> and \<open>canRemove\<close>, the predicates both \<open>wait\<close>
  calls are given, are members declared in BBQ.h, which is not among the sources. The spec
  has insert proceed "once count < capacity" and remove "once count > 0", with the count
  \<open>tail - head\<close>. The capacity is the constant \<open>MAX\<close> of BBQ.h: it is the
  parameter \<open>cap\<close> of every definition that needs it.
\<close>

definition canInsert :: "nat \<Rightarrow> BBQ \<Rightarrow> bool" where
  "canInsert cap q = (m_tail q - m_head q < int cap)"

definition canRemove :: "BBQ \<Rightarrow> bool" where
  "canRemove q = (0 < m_tail q - m_head q)"

text \<open>
  C++'s \<open>%\<close> on integers: undefined for a zero divisor, and otherwise the remainder of
  the division that truncates towards zero (the result has the sign of the dividend).
\<close>

definition c_mod :: "int \<Rightarrow> int \<Rightarrow> int option" where
  "c_mod a b = (if b = 0 then None else Some (sgn a * (\<bar>a\<bar> mod \<bar>b\<bar>)))"

text \<open>
  The subscript \<open>c % MAX\<close> into \<open>m_items\<close>: defined when the remainder is, and when it
  lies inside the array, whose length is the capacity.
\<close>

definition subscript :: "nat \<Rightarrow> int \<Rightarrow> nat option" where
  "subscript cap c =
     (case c_mod c (int cap) of
        None \<Rightarrow> None
      | Some i \<Rightarrow> if 0 \<le> i \<and> i < int cap then Some (nat i) else None)"

text \<open>
  \<open>notify_one\<close> unblocks one of the threads waiting on the condition variable, if there
  is any, and does nothing if there is none. Which of the waiting threads it is, is the
  library's choice: the number \<open>w\<close> makes it, as a position in the list of the waiters
  (counted round the list, so that every number picks a waiter and every waiter is picked
  by some number).
\<close>

definition notify_one :: "nat \<Rightarrow> tid list \<Rightarrow> tid list" where
  "notify_one w W = (if W = [] then [] else removeAll (W ! (w mod length W)) W)"

subsection \<open>The two operations\<close>

text \<open>
  \<open>BBQ::insert\<close>, run by thread \<open>t\<close> from its entry, or from waking up inside \<open>wait\<close>.
  \<open>wait(lock, pred)\<close> is \<open>while (!pred()) wait(lock);\<close>: with the predicate false the
  thread joins the waiters of \<open>m_itemRemoved\<close> and stops; with it true the call stores
  the item at \<open>m_tail % MAX\<close>, adds one to \<open>m_tail\<close>, notifies one waiter of
  \<open>m_itemAdded\<close> and returns.
\<close>

definition BBQ_insert :: "nat \<Rightarrow> tid \<Rightarrow> nat \<Rightarrow> BBQ \<Rightarrow> int \<Rightarrow> BBQ outcome" where
  "BBQ_insert cap t w q item =
     (if \<not> canInsert cap q
      then Suspended (q\<lparr>m_itemRemoved := List.insert t (m_itemRemoved q)\<rparr>)
      else case subscript cap (m_tail q) of
             None \<Rightarrow> Undefined
           | Some i \<Rightarrow>
               Returned (q\<lparr>m_items := (m_items q)(i := item),
                           m_tail := m_tail q + 1,
                           m_itemAdded := notify_one w (m_itemAdded q)\<rparr>))"

text \<open>
  \<open>BBQ::remove\<close>, likewise: it waits on \<open>m_itemAdded\<close>, reads the item at
  \<open>m_head % MAX\<close>, adds one to \<open>m_head\<close>, notifies one waiter of \<open>m_itemRemoved\<close>
  and returns the item read.
\<close>

definition BBQ_remove :: "nat \<Rightarrow> tid \<Rightarrow> nat \<Rightarrow> BBQ \<Rightarrow> (int \<times> BBQ) outcome" where
  "BBQ_remove cap t w q =
     (if \<not> canRemove q
      then Suspended (q\<lparr>m_itemAdded := List.insert t (m_itemAdded q)\<rparr>)
      else case subscript cap (m_head q) of
             None \<Rightarrow> Undefined
           | Some i \<Rightarrow>
               Returned (m_items q i,
                         q\<lparr>m_head := m_head q + 1,
                           m_itemRemoved := notify_one w (m_itemRemoved q)\<rparr>))"

text \<open>
  The live items, oldest first: the slots of the counters from \<open>m_head\<close> up to, and
  without, \<open>m_tail\<close>.
\<close>

definition contents :: "nat \<Rightarrow> BBQ \<Rightarrow> int list" where
  "contents cap q = map (\<lambda>c. m_items q (nat (c mod int cap))) [m_head q..m_tail q - 1]"

text \<open>The counters of an object that the operations have brought about.\<close>

definition wellformed :: "nat \<Rightarrow> BBQ \<Rightarrow> bool" where
  "wellformed cap q = (0 \<le> m_head q \<and> m_head q \<le> m_tail q \<and> m_tail q - m_head q \<le> int cap)"

subsection \<open>A sequential caller\<close>

text \<open>
  A single thread (thread 0) that performs a list of operations in program order, and
  collects what \<open>remove\<close> returns. No other thread exists, so nobody waits on a condition
  variable and the choice of \<open>notify_one\<close> does not matter; and when a call of this
  thread blocks, nothing can wake it: the program stops there for good.
\<close>

datatype op = Insert int | Remove

fun run :: "nat \<Rightarrow> BBQ \<Rightarrow> op list \<Rightarrow> (int list \<times> BBQ) outcome" where
  "run cap q [] = Returned ([], q)"
| "run cap q (Insert x # ops) =
     (case BBQ_insert cap 0 0 q x of
        Returned q' \<Rightarrow> run cap q' ops
      | Suspended q' \<Rightarrow> Suspended q'
      | Undefined \<Rightarrow> Undefined)"
| "run cap q (Remove # ops) =
     (case BBQ_remove cap 0 0 q of
        Returned (v, q') \<Rightarrow>
          (case run cap q' ops of
             Returned (vs, q'') \<Rightarrow> Returned (v # vs, q'')
           | Suspended q'' \<Rightarrow> Suspended q''
           | Undefined \<Rightarrow> Undefined)
      | Suspended q' \<Rightarrow> Suspended q'
      | Undefined \<Rightarrow> Undefined)"

fun inserts_of :: "op list \<Rightarrow> int list" where
  "inserts_of [] = []"
| "inserts_of (Insert x # ops) = x # inserts_of ops"
| "inserts_of (Remove # ops) = inserts_of ops"

fun removes_in :: "op list \<Rightarrow> nat" where
  "removes_in [] = 0"
| "removes_in (Insert x # ops) = removes_in ops"
| "removes_in (Remove # ops) = Suc (removes_in ops)"

subsection \<open>Threads\<close>

text \<open>
  Any number of threads share one object. A thread is outside the queue (\<open>Idle\<close>) or
  inside a call that has not returned; such a thread is blocked when it is among the
  waiters of its condition variable, and otherwise has been unblocked and will test its
  predicate again once it runs.
\<close>

datatype pc = Idle | In_insert int | In_remove

record system =
  queue :: BBQ
  threads :: "tid \<Rightarrow> pc"

text \<open>
  What the scheduler and the library can make happen next: an idle thread calls an
  operation, an unblocked thread runs on, and a blocked thread wakes up without a
  notification (the spurious wake-up that C++ allows). A call comes with the choice that
  \<open>notify_one\<close> makes if the call gets there.
\<close>

datatype action =
    Call_insert tid int nat
  | Call_remove tid nat
  | Resume tid nat
  | Spurious_wakeup tid

text \<open>What an observer sees of a step.\<close>

datatype event =
    Insert_returned tid int
  | Remove_returned tid int
  | Blocked tid
  | Woken tid
  | Faulted tid

text \<open>
  A thread runs its call, from the entry or from where it woke up. When the call returns,
  the thread is outside the queue again; when it blocks, the thread stays inside the call.
  Undefined behaviour is recorded as an event, and nothing is said about the state after
  it.
\<close>

definition run_insert :: "nat \<Rightarrow> system \<Rightarrow> tid \<Rightarrow> int \<Rightarrow> nat \<Rightarrow> (event \<times> system) option" where
  "run_insert cap s t x w =
     (case BBQ_insert cap t w (queue s) x of
        Returned q' \<Rightarrow>
          Some (Insert_returned t x, s\<lparr>queue := q', threads := (threads s)(t := Idle)\<rparr>)
      | Suspended q' \<Rightarrow>
          Some (Blocked t, s\<lparr>queue := q', threads := (threads s)(t := In_insert x)\<rparr>)
      | Undefined \<Rightarrow> Some (Faulted t, s))"

definition run_remove :: "nat \<Rightarrow> system \<Rightarrow> tid \<Rightarrow> nat \<Rightarrow> (event \<times> system) option" where
  "run_remove cap s t w =
     (case BBQ_remove cap t w (queue s) of
        Returned (v, q') \<Rightarrow>
          Some (Remove_returned t v, s\<lparr>queue := q', threads := (threads s)(t := Idle)\<rparr>)
      | Suspended q' \<Rightarrow>
          Some (Blocked t, s\<lparr>queue := q', threads := (threads s)(t := In_remove)\<rparr>)
      | Undefined \<Rightarrow> Some (Faulted t, s))"

text \<open>One step; \<open>None\<close> when the action is not possible in the state.\<close>

fun step :: "nat \<Rightarrow> system \<Rightarrow> action \<Rightarrow> (event \<times> system) option" where
  "step cap s (Call_insert t x w) =
     (if threads s t = Idle then run_insert cap s t x w else None)"
| "step cap s (Call_remove t w) =
     (if threads s t = Idle then run_remove cap s t w else None)"
| "step cap s (Resume t w) =
     (case threads s t of
        Idle \<Rightarrow> None
      | In_insert x \<Rightarrow>
          if t \<in> set (m_itemRemoved (queue s)) then None else run_insert cap s t x w
      | In_remove \<Rightarrow>
          if t \<in> set (m_itemAdded (queue s)) then None else run_remove cap s t w)"
| "step cap s (Spurious_wakeup t) =
     (if t \<in> set (m_itemAdded (queue s)) \<or> t \<in> set (m_itemRemoved (queue s))
      then Some (Woken t,
                 s\<lparr>queue := (queue s)\<lparr>m_itemAdded := removeAll t (m_itemAdded (queue s)),
                                       m_itemRemoved := removeAll t (m_itemRemoved (queue s))\<rparr>\<rparr>)
      else None)"

text \<open>A schedule, step after step: the events seen and the state reached.\<close>

fun exec :: "nat \<Rightarrow> system \<Rightarrow> action list \<Rightarrow> (event list \<times> system) option" where
  "exec cap s [] = Some ([], s)"
| "exec cap s (a # as) =
     (case step cap s a of
        None \<Rightarrow> None
      | Some (e, s') \<Rightarrow>
          (case exec cap s' as of
             None \<Rightarrow> None
           | Some (es, s'') \<Rightarrow> Some (e # es, s'')))"

text \<open>The state before any thread has touched the freshly constructed queue.\<close>

definition boot :: "(nat \<Rightarrow> int) \<Rightarrow> system" where
  "boot mem = \<lparr>queue = BBQ_ctor mem, threads = (\<lambda>t. Idle)\<rparr>"

text \<open>The items of the completed inserts, and those the completed removes returned.\<close>

fun inserted :: "event list \<Rightarrow> int list" where
  "inserted [] = []"
| "inserted (Insert_returned t x # es) = x # inserted es"
| "inserted (e # es) = inserted es"

fun removed :: "event list \<Rightarrow> int list" where
  "removed [] = []"
| "removed (Remove_returned t v # es) = v # removed es"
| "removed (e # es) = removed es"

text \<open>
  The items passed to the insert calls of a schedule, in the order of the calls; and
  whether every insert call of the schedule is made by thread \<open>p\<close>, the one producer.
\<close>

fun passed :: "action list \<Rightarrow> int list" where
  "passed [] = []"
| "passed (Call_insert t x w # as) = x # passed as"
| "passed (a # as) = passed as"

fun only_producer :: "tid \<Rightarrow> action list \<Rightarrow> bool" where
  "only_producer p [] = True"
| "only_producer p (Call_insert t x w # as) = (t = p \<and> only_producer p as)"
| "only_producer p (a # as) = only_producer p as"

text \<open>
  For the proofs: the item of the insert call that thread \<open>p\<close> is inside of, if it is
  inside one; and that no thread but \<open>p\<close> is inside an insert call.
\<close>

definition pending :: "tid \<Rightarrow> system \<Rightarrow> int list" where
  "pending p s = (case threads s p of In_insert x \<Rightarrow> [x] | _ \<Rightarrow> [])"

definition others_idle :: "tid \<Rightarrow> system \<Rightarrow> bool" where
  "others_idle p s = (\<forall>t x. threads s t = In_insert x \<longrightarrow> t = p)"

section \<open>The driver of main.cpp\<close>

subsection \<open>The command line\<close>

definition NUM_PRODUCERS :: int where
  "NUM_PRODUCERS = 10"

definition NUM_CONSUMERS :: int where
  "NUM_CONSUMERS = 10"

text \<open>\<open>EXIT_FAILURE\<close> is some status other than 0 that the platform chooses; commonly 1.\<close>

definition EXIT_FAILURE :: int where
  "EXIT_FAILURE = 1"

text \<open>
  C's \<open>atoi\<close>: it skips white space, takes an optional sign, and reads decimal digits up
  to the first character that is not one; with no digit there the result is 0, and nothing
  tells the caller so. The result is an \<open>int\<close> of 32 bits. Where the number read does
  not fit, C leaves the result undefined; the model gives what the GNU C library gives
  where \<open>long\<close> has 64 bits: \<open>atoi\<close> is \<open>strtol\<close> with its result converted to
  \<open>int\<close>, \<open>strtol\<close> stops at the largest and at the smallest \<open>long\<close>
  (\<open>to_long\<close>), and the conversion keeps the low 32 bits (\<open>to_int\<close>).
\<close>

definition to_long :: "int \<Rightarrow> int" where
  "to_long n = max (- 9223372036854775808) (min 9223372036854775807 n)"

definition to_int :: "int \<Rightarrow> int" where
  "to_int n = (n + 2147483648) mod 4294967296 - 2147483648"

definition isspace :: "char \<Rightarrow> bool" where
  "isspace c = (c \<in> set [CHR '' '', CHR 0x09, CHR 0x0A, CHR 0x0B, CHR 0x0C, CHR 0x0D])"

definition isdigit :: "char \<Rightarrow> bool" where
  "isdigit c = (48 \<le> (of_char c :: nat) \<and> (of_char c :: nat) \<le> 57)"

fun digits :: "int \<Rightarrow> string \<Rightarrow> int" where
  "digits n [] = n"
| "digits n (c # cs) =
     (if isdigit c then digits (10 * n + int (of_char c - 48)) cs else n)"

definition atoi :: "string \<Rightarrow> int" where
  "atoi str =
     to_int (to_long
       (case dropWhile isspace str of
          [] \<Rightarrow> 0
        | c # cs \<Rightarrow>
            if c = CHR ''-'' then - digits 0 cs
            else if c = CHR ''+'' then digits 0 cs
            else digits 0 (c # cs)))"

text \<open>What \<open>printf\<close> writes for \<open>%d\<close> and for \<open>%2d\<close>.\<close>

fun show_nat :: "nat \<Rightarrow> string" where
  "show_nat n =
     (if n < 10 then [''0123456789'' ! n]
      else show_nat (n div 10) @ [''0123456789'' ! (n mod 10)])"

definition show_int :: "int \<Rightarrow> string" where
  "show_int i = (if i < 0 then CHR ''-'' # show_nat (nat (- i)) else show_nat (nat i))"

definition show_int2 :: "int \<Rightarrow> string" where
  "show_int2 i = replicate (2 - length (show_int i)) CHR '' '' @ show_int i"

text \<open>
  \<open>main\<close>, with \<open>argv\<close> the list of its \<open>argc\<close> strings. It either leaves through
  \<open>exit\<close> with a status, having written some lines; or it goes on to create its
  threads. \<open>Spawned\<close> has the lines it writes and the threads it creates then, both in
  the order of the program. A worker is its task with the thread number and the sleep
  bound it is started with, and it runs from the moment it is created: a worker that meets
  undefined behaviour can end the whole process while \<open>main\<close> is still at a later place
  of these lists, so only the first thread of the list is sure to be created. When no
  worker ends the process, \<open>main\<close> waits in \<open>join\<close> for loops that do not end.
\<close>

datatype worker = Producer int int | Consumer int int

datatype main_outcome = Exited int "string list" | Spawned "string list" "worker list"

definition main :: "string list \<Rightarrow> main_outcome" where
  "main argv =
     (let argc = int (length argv) in
      if argc \<noteq> 3
      then Exited EXIT_FAILURE
             [''Error: project1 expected 2 arguments received '' @ show_int (argc - 1) @ [CHR 0x0A],
              ''Usage: project1 [sleep time range limit in milliseconds for producing threads]''
                @ [CHR 0x0A],
              ''                [sleep time range limit in milliseconds for consuming threads]''
                @ [CHR 0x0A]]
      else
        let producers_max_sleep_time_ms = atoi (argv ! 1);
            consumers_max_sleep_time_ms = atoi (argv ! 2)
        in Spawned
             (map (\<lambda>i. ''Created producer: thread '' @ show_int i @ [CHR 0x0A])
                  [1..NUM_PRODUCERS]
              @ map (\<lambda>i. ''Created consumer: thread '' @ show_int (i + NUM_PRODUCERS)
                           @ [CHR 0x0A])
                  [1..NUM_CONSUMERS])
             (map (\<lambda>i. Producer i producers_max_sleep_time_ms) [1..NUM_PRODUCERS]
              @ map (\<lambda>i. Consumer (i + NUM_PRODUCERS) consumers_max_sleep_time_ms)
                  [1..NUM_CONSUMERS]))"

subsection \<open>The worker loops\<close>

text \<open>
  The workers use a queue of type \<open>TSQueue\<close>, declared in TSQueue.h, which is not among
  the sources. Its operations are called as \<open>insert(item, pos)\<close> and
  \<open>remove(item, pos)\<close>, and the result of each is read as a truth value. They are the
  parameters \<open>tsq_insert\<close> and \<open>tsq_remove\<close> of the loops: from the queue (and the
  item) to the result, the position written to \<open>pos\<close>, the item written to \<open>item\<close>,
  and the queue afterwards; \<open>None\<close> when the call does not return.

  The numbers that \<open>std::rand()\<close> hands to a worker are a list. \<open>while (true)\<close> goes
  round for as long as the list has the numbers of another round, so the list is the
  fuel of the loop. A loop ends in one of three ways: its numbers are used up and it would
  go round again, or it is inside a queue call that does not return, or it has taken a
  remainder by zero.
\<close>

datatype task_event = Printed string | Slept int

datatype task_end = Still_looping | In_queue_call | Modulo_by_zero

definition produced_line :: "int \<Rightarrow> int \<Rightarrow> string" where
  "produced_line pos thread_num =
     ''Item '' @ show_int2 (pos + 1) @ '' produced by thread '' @ show_int thread_num
       @ [CHR 0x0A]"

definition consumed_line :: "int \<Rightarrow> int \<Rightarrow> string" where
  "consumed_line pos thread_num =
     ''Item '' @ show_int2 (pos + 1) @ '' consumed by thread '' @ show_int thread_num
       @ [CHR 0x0A]"

fun producerTask ::
  "('q \<Rightarrow> int \<Rightarrow> (bool \<times> int \<times> 'q) option) \<Rightarrow> int \<Rightarrow> int \<Rightarrow> int list \<Rightarrow> 'q
     \<Rightarrow> task_event list \<times> task_end" where
  "producerTask tsq_insert thread_num max_sleep_time_ms (r1 # r2 # rs) q =
     (case tsq_insert q r1 of
        None \<Rightarrow> ([], In_queue_call)
      | Some (ok, pos, q') \<Rightarrow>
          (let out = (if ok then [Printed (produced_line pos thread_num)] else [])
           in (case c_mod r2 max_sleep_time_ms of
                 None \<Rightarrow> (out, Modulo_by_zero)
               | Some d \<Rightarrow>
                   (case producerTask tsq_insert thread_num max_sleep_time_ms rs q' of
                      (evs, e) \<Rightarrow> (out @ Slept d # evs, e)))))"
| "producerTask tsq_insert thread_num max_sleep_time_ms rs q = ([], Still_looping)"

fun consumerTask ::
  "('q \<Rightarrow> (bool \<times> int \<times> int \<times> 'q) option) \<Rightarrow> int \<Rightarrow> int \<Rightarrow> int list \<Rightarrow> 'q
     \<Rightarrow> task_event list \<times> task_end" where
  "consumerTask tsq_remove thread_num max_sleep_time_ms (r # rs) q =
     (case tsq_remove q of
        None \<Rightarrow> ([], In_queue_call)
      | Some (ok, item, pos, q') \<Rightarrow>
          (let out = (if ok then [Printed (consumed_line pos thread_num)] else [])
           in (case c_mod r max_sleep_time_ms of
                 None \<Rightarrow> (out, Modulo_by_zero)
               | Some d \<Rightarrow>
                   (case consumerTask tsq_remove thread_num max_sleep_time_ms rs q' of
                      (evs, e) \<Rightarrow> (out @ Slept d # evs, e)))))"
| "consumerTask tsq_remove thread_num max_sleep_time_ms [] q = ([], Still_looping)"

section \<open>Facts about one operation\<close>

text \<open>
  From a counter that is not negative and a positive capacity, \<open>%\<close> is the remainder
  \<open>mod\<close> and the subscript is inside the array.
\<close>

lemma c_mod_nonneg: "0 < b \<Longrightarrow> 0 \<le> a \<Longrightarrow> c_mod a b = Some (a mod b)"
  by (cases "a = 0") (simp_all add: c_mod_def)

lemma subscript_nonneg:
  "0 < cap \<Longrightarrow> 0 \<le> c \<Longrightarrow> subscript cap c = Some (nat (c mod int cap))"
  by (simp add: subscript_def c_mod_nonneg)

lemma BBQ_insert_proceeds:
  assumes "0 < cap" "0 \<le> m_tail q" "canInsert cap q"
  shows "BBQ_insert cap t w q item =
           Returned (q\<lparr>m_items := (m_items q)(nat (m_tail q mod int cap) := item),
                       m_tail := m_tail q + 1,
                       m_itemAdded := notify_one w (m_itemAdded q)\<rparr>)"
  using assms by (simp add: BBQ_insert_def subscript_nonneg)

lemma BBQ_remove_proceeds:
  assumes "0 < cap" "0 \<le> m_head q" "canRemove q"
  shows "BBQ_remove cap t w q =
           Returned (m_items q (nat (m_head q mod int cap)),
                     q\<lparr>m_head := m_head q + 1,
                       m_itemRemoved := notify_one w (m_itemRemoved q)\<rparr>)"
  using assms by (simp add: BBQ_remove_def subscript_nonneg)

text \<open>
  \<open>notify_one\<close> takes exactly one thread off the waiters if there is one, and leaves
  the empty list empty.
\<close>

lemma notify_one_wakes:
  "if W = [] then notify_one w W = []
   else \<exists>u. u \<in> set W \<and> notify_one w W = removeAll u W \<and> set (notify_one w W) = set W - {u}"
proof (cases "W = []")
  case True
  then show ?thesis by (simp add: notify_one_def)
next
  case False
  then have "w mod length W < length W" by simp
  then have "W ! (w mod length W) \<in> set W" by (rule nth_mem)
  with False show ?thesis
    by (auto simp: notify_one_def intro!: exI [of _ "W ! (w mod length W)"])
qed

text \<open>Neither operation leaves the well-formed objects, and neither is undefined on them.\<close>

lemma BBQ_insert_wellformed:
  "wellformed cap q \<Longrightarrow> BBQ_insert cap t w q item = Returned q' \<Longrightarrow> wellformed cap q'"
  by (auto simp: BBQ_insert_def wellformed_def canInsert_def split: if_splits option.splits)

lemma BBQ_insert_wellformed_susp:
  "wellformed cap q \<Longrightarrow> BBQ_insert cap t w q item = Suspended q' \<Longrightarrow> wellformed cap q'"
  by (auto simp: BBQ_insert_def wellformed_def canInsert_def split: if_splits option.splits)

lemma BBQ_remove_wellformed:
  "wellformed cap q \<Longrightarrow> BBQ_remove cap t w q = Returned (v, q') \<Longrightarrow> wellformed cap q'"
  by (auto simp: BBQ_remove_def wellformed_def canRemove_def split: if_splits option.splits)

lemma BBQ_remove_wellformed_susp:
  "wellformed cap q \<Longrightarrow> BBQ_remove cap t w q = Suspended q' \<Longrightarrow> wellformed cap q'"
  by (auto simp: BBQ_remove_def wellformed_def canRemove_def split: if_splits option.splits)

lemma BBQ_insert_defined:
  "wellformed cap q \<Longrightarrow> BBQ_insert cap t w q x \<noteq> Undefined"
  by (cases "cap = 0")
     (auto simp: BBQ_insert_def subscript_nonneg wellformed_def canInsert_def)

lemma BBQ_remove_defined:
  "wellformed cap q \<Longrightarrow> BBQ_remove cap t w q \<noteq> Undefined"
  by (cases "cap = 0")
     (auto simp: BBQ_remove_def subscript_nonneg wellformed_def canRemove_def)

lemma wellformed_ctor: "wellformed cap (BBQ_ctor mem)"
  by (simp add: wellformed_def BBQ_ctor_def)

text \<open>When each operation returns, when it blocks, and what it does to the count.\<close>

lemma BBQ_insert_count:
  "BBQ_insert cap t w q x = Returned q' \<Longrightarrow> live_count q' = live_count q + 1"
  "BBQ_insert cap t w q x = Suspended q' \<Longrightarrow> live_count q' = live_count q"
  by (auto simp: BBQ_insert_def live_count_def split: if_splits option.splits)

lemma BBQ_remove_count:
  "BBQ_remove cap t w q = Returned (v, q') \<Longrightarrow> live_count q' = live_count q - 1"
  "BBQ_remove cap t w q = Suspended q' \<Longrightarrow> live_count q' = live_count q"
  by (auto simp: BBQ_remove_def live_count_def split: if_splits option.splits)

lemma BBQ_insert_Returned_room:
  "BBQ_insert cap t w q x = Returned q' \<Longrightarrow> live_count q < int cap"
  by (auto simp: BBQ_insert_def canInsert_def live_count_def split: if_splits)

lemma BBQ_remove_Returned_item:
  "BBQ_remove cap t w q = Returned r \<Longrightarrow> 0 < live_count q"
  by (auto simp: BBQ_remove_def canRemove_def live_count_def split: if_splits)

lemma BBQ_insert_Returned_iff:
  "0 < cap \<Longrightarrow> wellformed cap q \<Longrightarrow>
     (\<exists>q'. BBQ_insert cap t w q x = Returned q') = (live_count q < int cap)"
  by (auto simp: BBQ_insert_def subscript_nonneg wellformed_def canInsert_def live_count_def)

lemma BBQ_insert_Suspended_iff:
  "wellformed cap q \<Longrightarrow>
     (\<exists>q'. BBQ_insert cap t w q x = Suspended q') = (live_count q = int cap)"
  by (auto simp: BBQ_insert_def wellformed_def canInsert_def live_count_def
           split: option.splits)

lemma BBQ_remove_Returned_iff:
  "0 < cap \<Longrightarrow> wellformed cap q \<Longrightarrow>
     (\<exists>v q'. BBQ_remove cap t w q = Returned (v, q')) = (0 < live_count q)"
  by (auto simp: BBQ_remove_def subscript_nonneg wellformed_def canRemove_def live_count_def)

lemma BBQ_remove_Suspended_iff:
  "wellformed cap q \<Longrightarrow>
     (\<exists>q'. BBQ_remove cap t w q = Suspended q') = (live_count q = 0)"
  by (auto simp: BBQ_remove_def wellformed_def canRemove_def live_count_def
           split: option.splits)

text \<open>
  The slot an insert writes holds no live item: the counters of the live items are less
  than a capacity below \<open>m_tail\<close>, so none of them has the remainder of \<open>m_tail\<close>.
  Hence an insert appends to the contents, and a remove takes their head.
\<close>

lemma slot_distinct:
  fixes c t :: int
  assumes "c < t" "t - c < int cap"
  shows "nat (c mod int cap) \<noteq> nat (t mod int cap)"
proof
  assume "nat (c mod int cap) = nat (t mod int cap)"
  moreover have "0 < int cap" using assms by linarith
  ultimately have "c mod int cap = t mod int cap"
    by (metis nat_eq_iff2 pos_mod_sign)
  then have "int cap dvd t - c"
    by (metis mod_eq_dvd_iff)
  then have "int cap \<le> t - c"
    using assms by (intro zdvd_imp_le) auto
  with assms show False by simp
qed

lemma contents_insert:
  assumes "0 < cap" "wellformed cap q" "BBQ_insert cap t w q x = Returned q'"
  shows "contents cap q' = contents cap q @ [x]"
proof -
  have ci: "canInsert cap q"
    using assms(3) by (auto simp: BBQ_insert_def split: if_splits)
  have t0: "0 \<le> m_tail q" using assms(2) by (simp add: wellformed_def)
  have q': "q' = q\<lparr>m_items := (m_items q)(nat (m_tail q mod int cap) := x),
                   m_tail := m_tail q + 1,
                   m_itemAdded := notify_one w (m_itemAdded q)\<rparr>"
    using BBQ_insert_proceeds [OF assms(1) t0 ci, of t w x] assms(3) by simp
  have le: "m_head q \<le> m_tail q" using assms(2) by (simp add: wellformed_def)
  have up: "[m_head q..m_tail q] = [m_head q..m_tail q - 1] @ [m_tail q]"
    using le upto_rec2 [of "m_head q" "m_tail q"] by simp
  have old: "map (\<lambda>c. ((m_items q)(nat (m_tail q mod int cap) := x)) (nat (c mod int cap)))
                 [m_head q..m_tail q - 1]
             = map (\<lambda>c. m_items q (nat (c mod int cap))) [m_head q..m_tail q - 1]"
  proof (rule map_cong [OF refl])
    fix c assume "c \<in> set [m_head q..m_tail q - 1]"
    then have "m_head q \<le> c" "c < m_tail q" by auto
    moreover have "m_tail q - m_head q < int cap" using ci by (simp add: canInsert_def)
    ultimately have "nat (c mod int cap) \<noteq> nat (m_tail q mod int cap)"
      by (intro slot_distinct) auto
    then show "((m_items q)(nat (m_tail q mod int cap) := x)) (nat (c mod int cap))
               = m_items q (nat (c mod int cap))" by simp
  qed
  have "contents cap q' =
          map (\<lambda>c. ((m_items q)(nat (m_tail q mod int cap) := x)) (nat (c mod int cap)))
              [m_head q..m_tail q]"
    by (simp add: contents_def q')
  also have "\<dots> = map (\<lambda>c. m_items q (nat (c mod int cap))) [m_head q..m_tail q - 1] @ [x]"
    unfolding up map_append old by simp
  finally show ?thesis
    by (simp add: contents_def)
qed

lemma contents_remove:
  assumes "0 < cap" "wellformed cap q" "BBQ_remove cap t w q = Returned (v, q')"
  shows "contents cap q = v # contents cap q'"
proof -
  have cr: "canRemove q"
    using assms(3) by (auto simp: BBQ_remove_def split: if_splits)
  have h0: "0 \<le> m_head q" using assms(2) by (simp add: wellformed_def)
  have r: "v = m_items q (nat (m_head q mod int cap))"
          "q' = q\<lparr>m_head := m_head q + 1, m_itemRemoved := notify_one w (m_itemRemoved q)\<rparr>"
    using BBQ_remove_proceeds [OF assms(1) h0 cr, of t w] assms(3) by simp_all
  have lt: "m_head q \<le> m_tail q - 1" using cr by (simp add: canRemove_def)
  show ?thesis
    using upto_rec1 [OF lt] by (simp add: contents_def r)
qed

lemma contents_suspended_insert:
  "BBQ_insert cap t w q x = Suspended q' \<Longrightarrow> contents cap q' = contents cap q"
  by (auto simp: BBQ_insert_def contents_def split: if_splits option.splits)

lemma contents_suspended_remove:
  "BBQ_remove cap t w q = Suspended q' \<Longrightarrow> contents cap q' = contents cap q"
  by (auto simp: BBQ_remove_def contents_def split: if_splits option.splits)

lemma contents_ctor: "contents cap (BBQ_ctor mem) = []"
  by (simp add: contents_def BBQ_ctor_def)

text \<open>An operation returns exactly when there is room (an item), and then it has had its effect.\<close>

lemma BBQ_insert_effect_iff:
  assumes "0 < cap" "wellformed cap q"
  shows "(\<exists>q'. BBQ_insert cap t w q x = Returned q' \<and> contents cap q' = contents cap q @ [x])
         = (live_count q < int cap)"
  using BBQ_insert_Returned_iff [OF assms, of t w x] contents_insert [OF assms, of t w x]
  by blast

lemma BBQ_remove_effect_iff:
  assumes "0 < cap" "wellformed cap q"
  shows "(\<exists>v q'. BBQ_remove cap t w q = Returned (v, q') \<and> contents cap q = v # contents cap q')
         = (0 < live_count q)"
  using BBQ_remove_Returned_iff [OF assms, of t w] contents_remove [OF assms, of t w]
  by blast

section \<open>Facts about the sequential caller\<close>

lemma run_Insert_Returned:
  assumes "run cap q (Insert x # ops) = Returned (outs, q')"
  obtains q1 where "BBQ_insert cap 0 0 q x = Returned q1" "run cap q1 ops = Returned (outs, q')"
  using assms by (auto split: outcome.splits)

lemma run_Remove_Returned:
  assumes "run cap q (Remove # ops) = Returned (outs, q')"
  obtains v q1 vs where "BBQ_remove cap 0 0 q = Returned (v, q1)"
    "run cap q1 ops = Returned (vs, q')" "outs = v # vs"
  using assms by (auto split: outcome.splits)

lemma run_contents:
  "run cap q ops = Returned (outs, q') \<Longrightarrow> wellformed cap q \<Longrightarrow> 0 < cap \<Longrightarrow>
     contents cap q @ inserts_of ops = outs @ contents cap q' \<and> length outs = removes_in ops"
proof (induction ops arbitrary: q outs)
  case Nil
  then show ?case by simp
next
  case (Cons o1 ops)
  show ?case
  proof (cases o1)
    case (Insert x)
    from Cons.prems(1) [unfolded Insert] obtain q1 where
      i: "BBQ_insert cap 0 0 q x = Returned q1" and r: "run cap q1 ops = Returned (outs, q')"
      by (rule run_Insert_Returned)
    have wf1: "wellformed cap q1"
      using BBQ_insert_wellformed [OF Cons.prems(2) i] .
    show ?thesis
      using Cons.IH [OF r wf1 Cons.prems(3)] contents_insert [OF Cons.prems(3,2) i]
      by (simp add: Insert)
  next
    case Remove
    from Cons.prems(1) [unfolded Remove] obtain v q1 vs where
      i: "BBQ_remove cap 0 0 q = Returned (v, q1)" and r: "run cap q1 ops = Returned (vs, q')"
      and o: "outs = v # vs"
      by (rule run_Remove_Returned)
    have wf1: "wellformed cap q1"
      using BBQ_remove_wellformed [OF Cons.prems(2) i] .
    show ?thesis
      using Cons.IH [OF r wf1 Cons.prems(3)] contents_remove [OF Cons.prems(3,2) i]
      by (simp add: Remove o)
  qed
qed

lemma run_fifo:
  assumes "run cap (BBQ_ctor mem) ops = Returned (outs, q)" "0 < cap"
  shows "length outs = removes_in ops \<and>
         (\<forall>i < length outs. outs ! i = inserts_of ops ! i) \<and>
         (removes_in ops = length (inserts_of ops) \<longrightarrow> outs = inserts_of ops)"
proof -
  have split: "inserts_of ops = outs @ contents cap q" and len: "length outs = removes_in ops"
    using run_contents [OF assms(1) wellformed_ctor assms(2)] by (simp_all add: contents_ctor)
  have nth: "\<forall>i < length outs. outs ! i = inserts_of ops ! i"
    by (simp add: split nth_append)
  have "outs = inserts_of ops" if "removes_in ops = length (inserts_of ops)"
  proof -
    have "length (inserts_of ops) = length outs + length (contents cap q)"
      using arg_cong [OF split, of length] by simp
    with that len have "contents cap q = []" by simp
    with split show ?thesis by simp
  qed
  with len nth show ?thesis by blast
qed

section \<open>Facts about schedules\<close>

text \<open>The cases of a step.\<close>

lemma run_insert_cases:
  assumes "run_insert cap s t x w = Some (e, s')"
  obtains
    (returned) q' where "BBQ_insert cap t w (queue s) x = Returned q'"
      "e = Insert_returned t x" "queue s' = q'"
      "threads s' = (threads s)(t := Idle)"
  | (suspended) q' where "BBQ_insert cap t w (queue s) x = Suspended q'"
      "e = Blocked t" "queue s' = q'" "threads s' = (threads s)(t := In_insert x)"
  | (undefined) "BBQ_insert cap t w (queue s) x = Undefined" "e = Faulted t" "s' = s"
  using assms by (auto simp: run_insert_def split: outcome.splits if_splits)

lemma run_remove_cases:
  assumes "run_remove cap s t w = Some (e, s')"
  obtains
    (returned) v q' where "BBQ_remove cap t w (queue s) = Returned (v, q')"
      "e = Remove_returned t v" "queue s' = q'"
      "threads s' = (threads s)(t := Idle)"
  | (suspended) q' where "BBQ_remove cap t w (queue s) = Suspended q'"
      "e = Blocked t" "queue s' = q'" "threads s' = (threads s)(t := In_remove)"
  | (undefined) "BBQ_remove cap t w (queue s) = Undefined" "e = Faulted t" "s' = s"
  using assms by (auto simp: run_remove_def split: outcome.splits if_splits)

lemma step_cases:
  assumes "step cap s a = Some (e, s')"
  obtains
    (ins) t x w where "run_insert cap s t x w = Some (e, s')"
  | (rem) t w where "run_remove cap s t w = Some (e, s')"
  | (woken) t where "e = Woken t"
      "queue s' = (queue s)\<lparr>m_itemAdded := removeAll t (m_itemAdded (queue s)),
                             m_itemRemoved := removeAll t (m_itemRemoved (queue s))\<rparr>"
  using assms by (cases a) (auto split: if_splits pc.splits)

lemma exec_Cons:
  assumes "exec cap s (a # as) = Some (es, s')"
  obtains e s1 es1 where "step cap s a = Some (e, s1)" "exec cap s1 as = Some (es1, s')"
    "es = e # es1"
  using assms by (auto split: option.splits)

text \<open>A step, seen through its event.\<close>

lemma inserted_Cons: "inserted (e # es) = inserted [e] @ inserted es"
  by (cases e) simp_all

lemma removed_Cons: "removed (e # es) = removed [e] @ removed es"
  by (cases e) simp_all

lemma inserted_single: "(inserted [e] = []) = (\<forall>u x. e \<noteq> Insert_returned u x)"
  by (cases e) simp_all

lemma removed_single: "(removed [e] = []) = (\<forall>u v. e \<noteq> Remove_returned u v)"
  by (cases e) simp_all

lemma step_counters:
  assumes "step cap s a = Some (e, s')" "wellformed cap (queue s)"
  shows "wellformed cap (queue s') \<and>
         live_count (queue s') =
           live_count (queue s) + int (length (inserted [e])) - int (length (removed [e]))"
  using assms(1)
proof (cases rule: step_cases)
  case (ins t x w)
  then show ?thesis
    using assms(2)
    by (cases rule: run_insert_cases)
       (auto simp: BBQ_insert_count dest: BBQ_insert_wellformed BBQ_insert_wellformed_susp)
next
  case (rem t w)
  then show ?thesis
    using assms(2)
    by (cases rule: run_remove_cases)
       (auto simp: BBQ_remove_count dest: BBQ_remove_wellformed BBQ_remove_wellformed_susp)
next
  case (woken t)
  then show ?thesis
    using assms(2) by (simp add: wellformed_def live_count_def)
qed

lemma step_contents:
  assumes "step cap s a = Some (e, s')" "wellformed cap (queue s)" "0 < cap"
  shows "contents cap (queue s) @ inserted [e] = removed [e] @ contents cap (queue s')"
  using assms(1)
proof (cases rule: step_cases)
  case (ins t x w)
  then show ?thesis
    using assms(2,3)
    by (cases rule: run_insert_cases)
       (auto simp: contents_insert contents_suspended_insert)
next
  case (rem t w)
  then show ?thesis
    using assms(2,3)
    by (cases rule: run_remove_cases)
       (auto simp: contents_remove contents_suspended_remove)
next
  case (woken t)
  then show ?thesis
    by (simp add: contents_def)
qed

lemma step_defined:
  assumes "step cap s a = Some (e, s')" "wellformed cap (queue s)"
  shows "e \<noteq> Faulted t"
  using assms(1)
proof (cases rule: step_cases)
  case (ins t' x w)
  then show ?thesis
    using BBQ_insert_defined [OF assms(2)]
    by (cases rule: run_insert_cases) auto
next
  case (rem t' w)
  then show ?thesis
    using BBQ_remove_defined [OF assms(2)]
    by (cases rule: run_remove_cases) auto
next
  case (woken t')
  then show ?thesis by simp
qed

lemma step_enabled:
  assumes "step cap s a = Some (e, s')"
  shows "(e = Insert_returned t x \<longrightarrow> live_count (queue s) < int cap) \<and>
         (e = Remove_returned t v \<longrightarrow> 0 < live_count (queue s)) \<and>
         (inserted [e] = [] \<and> removed [e] = [] \<longrightarrow>
            live_count (queue s') = live_count (queue s))"
  using assms
proof (cases rule: step_cases)
  case (ins t' x' w)
  then show ?thesis
    by (cases rule: run_insert_cases)
       (auto simp: BBQ_insert_count dest: BBQ_insert_Returned_room)
next
  case (rem t' w)
  then show ?thesis
    by (cases rule: run_remove_cases)
       (auto simp: BBQ_remove_count dest: BBQ_remove_Returned_item)
next
  case (woken t')
  then show ?thesis by (simp add: live_count_def)
qed

text \<open>Schedules, by induction on the list of actions with the state they start in free.\<close>

lemma exec_counters:
  "exec cap s as = Some (es, s') \<Longrightarrow> wellformed cap (queue s) \<Longrightarrow>
     wellformed cap (queue s') \<and>
     live_count (queue s') =
       live_count (queue s) + int (length (inserted es)) - int (length (removed es))"
proof (induction as arbitrary: s es)
  case Nil
  then show ?case by simp
next
  case (Cons a as)
  from Cons.prems(1) obtain e s1 es1 where
    st: "step cap s a = Some (e, s1)" and ex: "exec cap s1 as = Some (es1, s')"
    and es: "es = e # es1"
    by (rule exec_Cons)
  note one = step_counters [OF st Cons.prems(2)]
  note rest = Cons.IH [OF ex conjunct1 [OF one]]
  show ?case
    using one rest
    by (simp add: es inserted_Cons [of e es1] removed_Cons [of e es1])
qed

lemma exec_contents:
  "exec cap s as = Some (es, s') \<Longrightarrow> wellformed cap (queue s) \<Longrightarrow> 0 < cap \<Longrightarrow>
     contents cap (queue s) @ inserted es = removed es @ contents cap (queue s')"
proof (induction as arbitrary: s es)
  case Nil
  then show ?case by simp
next
  case (Cons a as)
  from Cons.prems(1) obtain e s1 es1 where
    st: "step cap s a = Some (e, s1)" and ex: "exec cap s1 as = Some (es1, s')"
    and es: "es = e # es1"
    by (rule exec_Cons)
  have wf1: "wellformed cap (queue s1)"
    using step_counters [OF st Cons.prems(2)] by simp
  have "contents cap (queue s) @ inserted es
        = (contents cap (queue s) @ inserted [e]) @ inserted es1"
    by (simp add: es inserted_Cons [of e es1])
  also have "\<dots> = removed [e] @ (contents cap (queue s1) @ inserted es1)"
    by (simp add: step_contents [OF st Cons.prems(2,3)])
  also have "\<dots> = removed [e] @ (removed es1 @ contents cap (queue s'))"
    by (simp add: Cons.IH [OF ex wf1 Cons.prems(3)])
  finally show ?case
    by (simp add: es removed_Cons [of e es1])
qed

lemma exec_defined:
  "exec cap s as = Some (es, s') \<Longrightarrow> wellformed cap (queue s) \<Longrightarrow> Faulted t \<notin> set es"
proof (induction as arbitrary: s es)
  case Nil
  then show ?case by simp
next
  case (Cons a as)
  from Cons.prems(1) obtain e s1 es1 where
    st: "step cap s a = Some (e, s1)" and ex: "exec cap s1 as = Some (es1, s')"
    and es: "es = e # es1"
    by (rule exec_Cons)
  have wf1: "wellformed cap (queue s1)"
    using step_counters [OF st Cons.prems(2)] by simp
  show ?case
    using step_defined [OF st Cons.prems(2)] Cons.IH [OF ex wf1]
    by (auto simp: es)
qed

lemma wellformed_boot: "wellformed cap (queue (boot mem))"
  by (simp add: wellformed_def boot_def BBQ_ctor_def)

lemma contents_boot: "contents cap (queue (boot mem)) = []"
  by (simp add: contents_def boot_def BBQ_ctor_def)

lemma live_count_boot: "live_count (queue (boot mem)) = 0"
  by (simp add: live_count_def boot_def BBQ_ctor_def)

text \<open>
  Once the queue is full no insert returns before a remove has, and once it is empty no
  remove returns before an insert has: until then the count stays where it is.
\<close>

lemma insert_waits_for_remove:
  "exec cap s0 as = Some (es, s) \<Longrightarrow> int cap \<le> live_count (queue s0) \<Longrightarrow>
   i < length es \<Longrightarrow> es ! i = Insert_returned t x \<Longrightarrow>
     \<exists>j<i. \<exists>u v. es ! j = Remove_returned u v"
proof (induction as arbitrary: s0 es i)
  case Nil
  then show ?case by simp
next
  case (Cons a as)
  from Cons.prems(1) obtain e s1 es1 where
    st: "step cap s0 a = Some (e, s1)" and ex: "exec cap s1 as = Some (es1, s)"
    and es: "es = e # es1"
    by (rule exec_Cons)
  have full: "\<forall>u y. e \<noteq> Insert_returned u y"
    using step_enabled [OF st] Cons.prems(2) by fastforce
  then obtain i' where i: "i = Suc i'"
    using Cons.prems(4) es by (cases i) auto
  show ?case
  proof (cases "\<exists>u v. e = Remove_returned u v")
    case True
    then obtain u v where "e = Remove_returned u v" by blast
    then have "0 < i \<and> es ! 0 = Remove_returned u v"
      by (simp add: es i)
    then show ?thesis by blast
  next
    case False
    then have "live_count (queue s1) = live_count (queue s0)"
      using step_enabled [OF st] full by (simp add: removed_single inserted_single)
    with Cons.prems(2) have "int cap \<le> live_count (queue s1)" by simp
    from Cons.IH [OF ex this, of i'] Cons.prems(3,4)
    obtain j u v where "j < i'" "es1 ! j = Remove_returned u v"
      by (auto simp: es i)
    then have "Suc j < i \<and> es ! Suc j = Remove_returned u v"
      by (simp add: es i)
    then show ?thesis by blast
  qed
qed

lemma remove_waits_for_insert:
  "exec cap s0 as = Some (es, s) \<Longrightarrow> live_count (queue s0) \<le> 0 \<Longrightarrow>
   i < length es \<Longrightarrow> es ! i = Remove_returned t v \<Longrightarrow>
     \<exists>j<i. \<exists>u x. es ! j = Insert_returned u x"
proof (induction as arbitrary: s0 es i)
  case Nil
  then show ?case by simp
next
  case (Cons a as)
  from Cons.prems(1) obtain e s1 es1 where
    st: "step cap s0 a = Some (e, s1)" and ex: "exec cap s1 as = Some (es1, s)"
    and es: "es = e # es1"
    by (rule exec_Cons)
  have empty: "\<forall>u y. e \<noteq> Remove_returned u y"
    using step_enabled [OF st] Cons.prems(2) by fastforce
  then obtain i' where i: "i = Suc i'"
    using Cons.prems(4) es by (cases i) auto
  show ?case
  proof (cases "\<exists>u x. e = Insert_returned u x")
    case True
    then obtain u x where "e = Insert_returned u x" by blast
    then have "0 < i \<and> es ! 0 = Insert_returned u x"
      by (simp add: es i)
    then show ?thesis by blast
  next
    case False
    then have "live_count (queue s1) = live_count (queue s0)"
      using step_enabled [OF st] empty by (simp add: removed_single inserted_single)
    with Cons.prems(2) have "live_count (queue s1) \<le> 0" by simp
    from Cons.IH [OF ex this, of i'] Cons.prems(3,4)
    obtain j u x where "j < i'" "es1 ! j = Insert_returned u x"
      by (auto simp: es i)
    then have "Suc j < i \<and> es ! Suc j = Insert_returned u x"
      by (simp add: es i)
    then show ?thesis by blast
  qed
qed

text \<open>
  With one producer, the items of its calls are the items of the completed inserts, and
  after them the item of the call it is inside of.
\<close>

lemma run_insert_pending:
  assumes "run_insert cap s t x w = Some (e, s')" "0 < cap" "wellformed cap (queue s)"
  shows "(e = Insert_returned t x \<and> threads s' = (threads s)(t := Idle)) \<or>
         (e = Blocked t \<and> threads s' = (threads s)(t := In_insert x))"
  using assms(1) BBQ_insert_defined [OF assms(3), of t w x]
  by (cases rule: run_insert_cases) simp_all

lemma run_remove_pending:
  assumes "run_remove cap s t w = Some (e, s')" "0 < cap" "wellformed cap (queue s)"
  shows "((\<exists>v. e = Remove_returned t v) \<and> threads s' = (threads s)(t := Idle)) \<or>
         (e = Blocked t \<and> threads s' = (threads s)(t := In_remove))"
  using assms(1) BBQ_remove_defined [OF assms(3), of t w]
  by (cases rule: run_remove_cases) simp_all

lemma step_pending:
  assumes "step cap s a = Some (e, s')" "0 < cap" "wellformed cap (queue s)"
    "only_producer p [a]" "others_idle p s"
  shows "pending p s @ passed [a] = inserted [e] @ pending p s' \<and> others_idle p s'"
proof (cases a)
  case (Call_insert t x w)
  with assms(1,4) have idle: "threads s p = Idle" and t: "t = p"
    and r: "run_insert cap s p x w = Some (e, s')"
    by (auto split: if_splits)
  show ?thesis
    using run_insert_pending [OF r assms(2,3)] idle assms(5)
    by (auto simp: Call_insert t pending_def others_idle_def split: if_splits)
next
  case (Call_remove t w)
  with assms(1) have idle: "threads s t = Idle"
    and r: "run_remove cap s t w = Some (e, s')"
    by (auto split: if_splits)
  show ?thesis
    using run_remove_pending [OF r assms(2,3)] idle assms(5)
    by (auto simp: Call_remove pending_def others_idle_def split: pc.splits if_splits)
next
  case (Resume t w)
  show ?thesis
  proof (cases "threads s t")
    case Idle
    with assms(1) Resume show ?thesis by simp
  next
    case (In_insert x)
    with assms(5) have t: "t = p" by (simp add: others_idle_def)
    from assms(1) Resume In_insert have r: "run_insert cap s t x w = Some (e, s')"
      by (auto split: if_splits)
    show ?thesis
      using run_insert_pending [OF r assms(2,3)] In_insert assms(5)
      by (auto simp: Resume t pending_def others_idle_def split: if_splits)
  next
    case In_remove
    from assms(1) Resume In_remove have r: "run_remove cap s t w = Some (e, s')"
      by (auto split: if_splits)
    show ?thesis
      using run_remove_pending [OF r assms(2,3)] In_remove assms(5)
      by (auto simp: Resume pending_def others_idle_def split: pc.splits if_splits)
  qed
next
  case (Spurious_wakeup t)
  with assms(1,5) show ?thesis
    by (auto simp: pending_def others_idle_def split: if_splits)
qed

lemma passed_Cons: "passed (a # as) = passed [a] @ passed as"
  by (cases a) simp_all

lemma only_producer_Cons: "only_producer p (a # as) = (only_producer p [a] \<and> only_producer p as)"
  by (cases a) simp_all

lemma exec_pending:
  "exec cap s as = Some (es, s') \<Longrightarrow> 0 < cap \<Longrightarrow> wellformed cap (queue s) \<Longrightarrow>
   only_producer p as \<Longrightarrow> others_idle p s \<Longrightarrow>
     pending p s @ passed as = inserted es @ pending p s'"
proof (induction as arbitrary: s es)
  case Nil
  then show ?case by simp
next
  case (Cons a as)
  from Cons.prems(1) obtain e s1 es1 where
    st: "step cap s a = Some (e, s1)" and ex: "exec cap s1 as = Some (es1, s')"
    and es: "es = e # es1"
    by (rule exec_Cons)
  have op1: "only_producer p [a]" and ops: "only_producer p as"
    using Cons.prems(4) only_producer_Cons [of p a as] by simp_all
  have wf1: "wellformed cap (queue s1)"
    using step_counters [OF st Cons.prems(3)] by simp
  note one = step_pending [OF st Cons.prems(2,3) op1 Cons.prems(5)]
  have "pending p s @ passed (a # as) = (pending p s @ passed [a]) @ passed as"
    by (simp add: passed_Cons [of a as])
  also have "\<dots> = inserted [e] @ (pending p s1 @ passed as)"
    using one by simp
  also have "\<dots> = inserted [e] @ (inserted es1 @ pending p s')"
    using Cons.IH [OF ex Cons.prems(2) wf1 ops conjunct2 [OF one]] by simp
  finally show ?case
    by (simp add: es inserted_Cons [of e es1])
qed

lemma pending_boot: "pending p (boot mem) = []" and others_idle_boot: "others_idle p (boot mem)"
  by (simp_all add: pending_def others_idle_def boot_def)

section \<open>Facts about the driver\<close>

lemma c_mod_None: "(c_mod r m = None) = (m = 0)"
  by (simp add: c_mod_def)

lemma producerTask_nonzero:
  "m \<noteq> 0 \<Longrightarrow> snd (producerTask tsq_insert n m rs q) \<noteq> Modulo_by_zero"
proof (induction tsq_insert n m rs q rule: producerTask.induct)
  case (1 tsq_insert n m r1 r2 rs q)
  show ?case
  proof (cases "tsq_insert q r1")
    case None
    then show ?thesis by simp
  next
    case (Some res)
    obtain ok pos q' where res: "res = (ok, pos, q')" by (cases res)
    obtain d where d: "c_mod r2 m = Some d"
      using "1.prems" by (auto simp: c_mod_def)
    obtain evs e where rest: "producerTask tsq_insert n m rs q' = (evs, e)"
      by (cases "producerTask tsq_insert n m rs q'")
    have "snd (producerTask tsq_insert n m rs q') \<noteq> Modulo_by_zero"
      using "1.IH" [OF Some res [symmetric] refl refl d] "1.prems" by simp
    then show ?thesis
      by (simp add: Some res d rest)
  qed
qed simp_all

lemma consumerTask_nonzero:
  "m \<noteq> 0 \<Longrightarrow> snd (consumerTask tsq_remove n m rs q) \<noteq> Modulo_by_zero"
proof (induction tsq_remove n m rs q rule: consumerTask.induct)
  case (1 tsq_remove n m r rs q)
  show ?case
  proof (cases "tsq_remove q")
    case None
    then show ?thesis by simp
  next
    case (Some res)
    obtain ok item pos q' where res: "res = (ok, item, pos, q')" by (cases res)
    obtain d where d: "c_mod r m = Some d"
      using "1.prems" by (auto simp: c_mod_def)
    obtain evs e where rest: "consumerTask tsq_remove n m rs q' = (evs, e)"
      by (cases "consumerTask tsq_remove n m rs q'")
    have "snd (consumerTask tsq_remove n m rs q') \<noteq> Modulo_by_zero"
      using "1.IH" [OF Some res [symmetric] refl refl refl d] "1.prems" by simp
    then show ?thesis
      by (simp add: Some res d rest)
  qed
qed simp_all

lemma producerTask_zero:
  "tsq_insert q r1 \<noteq> None \<Longrightarrow>
     snd (producerTask tsq_insert n 0 (r1 # r2 # rs) q) = Modulo_by_zero"
  by (auto simp: c_mod_def)

lemma consumerTask_zero:
  "tsq_remove q \<noteq> None \<Longrightarrow>
     snd (consumerTask tsq_remove n 0 (r # rs) q) = Modulo_by_zero"
  by (auto simp: c_mod_def)

lemma atoi_no_number:
  "\<not> isspace c \<Longrightarrow> \<not> isdigit c \<Longrightarrow> c \<noteq> CHR ''-'' \<Longrightarrow> c \<noteq> CHR ''+'' \<Longrightarrow> atoi (c # cs) = 0"
  by (simp add: atoi_def to_int_def to_long_def)

text \<open>Numerals that do not fit an \<open>int\<close>.\<close>

lemma atoi_out_of_range:
  "atoi ''4294967296'' = 0" "atoi ''2147483648'' = - 2147483648"
  by (simp_all add: atoi_def isspace_def isdigit_def to_int_def to_long_def)

lemma main_spawns:
  "length argv = 3 \<Longrightarrow>
     main argv =
       Spawned
         (map (\<lambda>i. ''Created producer: thread '' @ show_int i @ [CHR 0x0A]) [1..10]
          @ map (\<lambda>i. ''Created consumer: thread '' @ show_int (i + 10) @ [CHR 0x0A]) [1..10])
         (map (\<lambda>i. Producer i (atoi (argv ! 1))) [1..10]
          @ map (\<lambda>i. Consumer (i + 10) (atoi (argv ! 2))) [1..10])"
  by (simp add: main_def NUM_PRODUCERS_def NUM_CONSUMERS_def Let_def)

lemma main_usage:
  "length argv \<noteq> 3 \<Longrightarrow>
     main argv =
       Exited EXIT_FAILURE
         [''Error: project1 expected 2 arguments received ''
            @ show_int (int (length argv) - 1) @ [CHR 0x0A],
          ''Usage: project1 [sleep time range limit in milliseconds for producing threads]''
            @ [CHR 0x0A],
          ''                [sleep time range limit in milliseconds for consuming threads]''
            @ [CHR 0x0A]]"
  by (simp add: main_def Let_def)

lemma main_spawns_producer:
  assumes "length argv = 3"
  shows "\<exists>out ws. main argv = Spawned out ws \<and> Producer 1 (atoi (argv ! 1)) \<in> set ws
                    \<and> Consumer 11 (atoi (argv ! 2)) \<in> set ws"
proof -
  have p: "Producer 1 (atoi (argv ! 1)) \<in> (\<lambda>i. Producer i (atoi (argv ! 1))) ` {1..10}"
    by (rule image_eqI [of _ _ 1]) simp_all
  have c: "Consumer 11 (atoi (argv ! 2)) \<in> (\<lambda>i. Consumer (i + 10) (atoi (argv ! 2))) ` {1..10}"
    by (rule image_eqI [of _ _ 1]) simp_all
  show ?thesis
    unfolding main_spawns [OF assms] using p c by simp
qed

section \<open>The claims\<close>

text \<open>The definitions that running a concrete schedule unfolds.\<close>

lemmas queue_eval =
  run_insert_def run_remove_def BBQ_insert_def BBQ_remove_def
  canInsert_def canRemove_def subscript_def c_mod_def notify_one_def List.insert_def
  boot_def BBQ_ctor_def live_count_def

lemmas run_eval =
  BBQ_insert_def BBQ_remove_def canInsert_def canRemove_def subscript_def c_mod_def
  notify_one_def List.insert_def BBQ_ctor_def

subsection \<open>C1: the capacity invariant\<close>

text \<open>
  C1. In every state that a schedule of the threads reaches from the freshly constructed
  queue, the number of live items \<open>m_tail - m_head\<close> is at least 0 and at most the
  capacity; and it is the number of completed inserts minus the number of completed
  removes.
\<close>

theorem capacity_invariant:
  assumes "exec cap (boot mem) as = Some (es, s)"
  shows "0 \<le> live_count (queue s) \<and> live_count (queue s) \<le> int cap \<and>
         live_count (queue s) = int (length (inserted es)) - int (length (removed es))"
proof -
  have "wellformed cap (queue s)"
    and "live_count (queue s) = int (length (inserted es)) - int (length (removed es))"
    using exec_counters [OF assms wellformed_boot] by (simp_all add: live_count_boot)
  then show ?thesis
    by (simp add: wellformed_def live_count_def)
qed

text \<open>
  Three threads on a queue of capacity 2: the third insert blocks on the full queue and
  completes after a remove.
\<close>

theorem capacity_invariant_witness:
  "\<exists>s. exec 2 (boot (\<lambda>i. 0))
          [Call_insert 0 5 0, Call_insert 1 6 0, Call_insert 2 7 0,
           Call_remove 0 0, Resume 2 0]
        = Some ([Insert_returned 0 5, Insert_returned 1 6, Blocked 2,
                 Remove_returned 0 5, Insert_returned 2 7], s)
      \<and> 0 \<le> live_count (queue s) \<and> live_count (queue s) \<le> int 2
      \<and> live_count (queue s) = 2"
proof -
  obtain s where ex: "exec 2 (boot (\<lambda>i. 0))
          [Call_insert 0 5 0, Call_insert 1 6 0, Call_insert 2 7 0,
           Call_remove 0 0, Resume 2 0]
        = Some ([Insert_returned 0 5, Insert_returned 1 6, Blocked 2,
                 Remove_returned 0 5, Insert_returned 2 7], s)"
    by (simp add: queue_eval)
  from capacity_invariant [OF ex] ex show ?thesis
    by auto
qed

subsection \<open>C2: first in, first out\<close>

text \<open>
  C2. A sequential caller that gets through its list of operations has been returned, by
  its i-th remove, the item of its i-th insert; with as many removes as inserts, the
  list of the items returned is the list of the items inserted. And in every schedule of
  threads in which one thread makes all the insert calls, the i-th remove to return
  returns the item passed to the i-th insert call; when as many removes have returned
  as insert calls were made, the items returned are the items passed, in order.
\<close>

theorem fifo_one_producer:
  "(run cap (BBQ_ctor mem) ops = Returned (outs, q) \<and> 0 < cap \<longrightarrow>
      length outs = removes_in ops \<and>
      (\<forall>i < length outs. outs ! i = inserts_of ops ! i) \<and>
      (removes_in ops = length (inserts_of ops) \<longrightarrow> outs = inserts_of ops))
   \<and>
   (exec cap (boot mem) as = Some (es, s) \<and> 0 < cap \<and> only_producer p as \<longrightarrow>
      (\<forall>i < length (removed es). removed es ! i = passed as ! i) \<and>
      (length (removed es) = length (passed as) \<longrightarrow> removed es = passed as))"
proof (intro conjI impI; (elim conjE)?)
  assume r: "run cap (BBQ_ctor mem) ops = Returned (outs, q)" and c: "0 < cap"
  show "length outs = removes_in ops"
    and "\<forall>i < length outs. outs ! i = inserts_of ops ! i"
    using run_fifo [OF r c] by simp_all
  assume "removes_in ops = length (inserts_of ops)"
  then show "outs = inserts_of ops"
    using run_fifo [OF r c] by simp
next
  assume ex: "exec cap (boot mem) as = Some (es, s)" and c: "0 < cap"
    and p: "only_producer p as"
  have a: "passed as = inserted es @ pending p s"
    using exec_pending [OF ex c wellformed_boot p others_idle_boot] by (simp add: pending_boot)
  have b: "inserted es = removed es @ contents cap (queue s)"
    using exec_contents [OF ex wellformed_boot c] by (simp add: contents_boot)
  have split: "passed as = removed es @ (contents cap (queue s) @ pending p s)"
    by (simp add: a b)
  show "\<forall>i < length (removed es). removed es ! i = passed as ! i"
    by (simp add: split nth_append)
  assume "length (removed es) = length (passed as)"
  moreover have "length (passed as)
                 = length (removed es) + length (contents cap (queue s) @ pending p s)"
    using arg_cong [OF split, of length] by simp
  ultimately have "contents cap (queue s) @ pending p s = []" by simp
  with split show "removed es = passed as" by simp
qed

text \<open>
  A sequential run on capacity 2; and a producer (thread 0) and a consumer (thread 1)
  where the third insert blocks until the consumer has removed an item.
\<close>

theorem fifo_one_producer_witness:
  "(\<exists>q. run 2 (BBQ_ctor (\<lambda>i. 0)) [Insert 7, Insert 8, Remove, Insert 9, Remove, Remove]
          = Returned ([7, 8, 9], q))
   \<and> inserts_of [Insert 7, Insert 8, Remove, Insert 9, Remove, Remove] = [7, 8, 9]
   \<and> (\<exists>s. exec 2 (boot (\<lambda>i. 0))
             [Call_insert 0 7 0, Call_insert 0 8 0, Call_insert 0 9 0,
              Call_remove 1 0, Resume 0 0, Call_remove 1 0, Call_remove 1 0]
           = Some ([Insert_returned 0 7, Insert_returned 0 8, Blocked 0,
                    Remove_returned 1 7, Insert_returned 0 9, Remove_returned 1 8,
                    Remove_returned 1 9], s))
   \<and> removed [Insert_returned 0 7, Insert_returned 0 8, Blocked 0,
               Remove_returned 1 7, Insert_returned 0 9, Remove_returned 1 8,
               Remove_returned 1 9]
       = passed [Call_insert 0 7 0, Call_insert 0 8 0, Call_insert 0 9 0,
                 Call_remove 1 0, Resume 0 0, Call_remove 1 0, Call_remove 1 0]"
proof -
  let ?ops = "[Insert 7, Insert 8, Remove, Insert 9, Remove, Remove]"
  let ?as = "[Call_insert 0 7 0, Call_insert 0 8 0, Call_insert 0 9 0,
              Call_remove 1 0, Resume 0 0, Call_remove 1 0, Call_remove 1 0]"
  let ?es = "[Insert_returned 0 7, Insert_returned 0 8, Blocked 0,
              Remove_returned 1 7, Insert_returned 0 9, Remove_returned 1 8,
              Remove_returned 1 9]"
  obtain q where r: "run 2 (BBQ_ctor (\<lambda>i. 0)) ?ops = Returned ([7, 8, 9], q)"
    by (simp add: run_eval)
  obtain s where ex: "exec 2 (boot (\<lambda>i. 0)) ?as = Some (?es, s)"
    by (simp add: queue_eval)
  have p: "only_producer 0 ?as" by simp
  have pos: "(0::nat) < 2" by simp
  have n: "removes_in ?ops = length (inserts_of ?ops)" by simp
  have m: "length (removed ?es) = length (passed ?as)" by simp
  have "[7, 8, 9] = inserts_of ?ops"
    using fifo_one_producer [of 2 "\<lambda>i. 0" ?ops "[7, 8, 9]" q ?as ?es s 0, THEN conjunct1]
      r pos n by blast
  moreover have "removed ?es = passed ?as"
    using fifo_one_producer [of 2 "\<lambda>i. 0" ?ops "[7, 8, 9]" q ?as ?es s 0, THEN conjunct2]
      ex pos p m by blast
  ultimately show ?thesis
    using r ex by (intro conjI exI) simp_all
qed

subsection \<open>C3: no loss, no duplication\<close>

text \<open>
  C3. In every execution from the freshly constructed queue, the items that the completed
  inserts passed in are the items that the completed removes returned, followed by the
  items still in the queue. So every item returned was inserted and is returned once; and
  when as many removes as inserts have completed, the multiset of the items returned is
  the multiset of the items inserted.
\<close>

theorem no_loss_no_duplication:
  assumes "exec cap (boot mem) as = Some (es, s)" "0 < cap"
  shows "inserted es = removed es @ contents cap (queue s) \<and>
         mset (removed es) \<subseteq># mset (inserted es) \<and>
         (length (removed es) = length (inserted es) \<longrightarrow>
            mset (removed es) = mset (inserted es))"
proof -
  have split: "inserted es = removed es @ contents cap (queue s)"
    using exec_contents [OF assms(1) wellformed_boot assms(2)] by (simp add: contents_boot)
  have "mset (inserted es) = mset (removed es) + mset (contents cap (queue s))"
    by (simp add: split)
  then have sub: "mset (removed es) \<subseteq># mset (inserted es)"
    by simp
  have "removed es = inserted es" if "length (removed es) = length (inserted es)"
  proof -
    have "length (inserted es) = length (removed es) + length (contents cap (queue s))"
      using arg_cong [OF split, of length] by simp
    with that have "contents cap (queue s) = []" by simp
    with split show ?thesis by simp
  qed
  with split sub show ?thesis by auto
qed

text \<open>
  Four threads and the same item twice: a remove blocks on the empty queue, and both
  copies come out.
\<close>

theorem no_loss_no_duplication_witness:
  "\<exists>s. exec 2 (boot (\<lambda>i. 0))
          [Call_remove 3 0, Call_insert 0 5 0, Call_insert 1 5 0, Resume 3 0,
           Call_remove 4 0]
        = Some ([Blocked 3, Insert_returned 0 5, Insert_returned 1 5, Remove_returned 3 5,
                 Remove_returned 4 5], s)
      \<and> mset [5, 5] = mset [5, 5 :: int] \<and> contents 2 (queue s) = []"
proof -
  obtain s where ex: "exec 2 (boot (\<lambda>i. 0))
          [Call_remove 3 0, Call_insert 0 5 0, Call_insert 1 5 0, Resume 3 0,
           Call_remove 4 0]
        = Some ([Blocked 3, Insert_returned 0 5, Insert_returned 1 5, Remove_returned 3 5,
                 Remove_returned 4 5], s)"
    by (simp add: queue_eval)
  have "(0::nat) < 2" by simp
  from no_loss_no_duplication [OF ex this] ex show ?thesis
    by auto
qed

subsection \<open>C4: what an operation that proceeds does\<close>

text \<open>
  C4. An insert that finds fewer live items than the capacity stores the item in slot
  \<open>m_tail % MAX\<close>, with \<open>m_tail\<close> as it was on entry, adds exactly one to \<open>m_tail\<close>,
  leaves \<open>m_head\<close> and the waiters of \<open>m_itemRemoved\<close> alone, and returns; and of the
  threads waiting to remove it unblocks exactly one (if any waits: with nobody waiting,
  nobody is unblocked and nobody waits afterwards). A remove that finds a live item
  mirrors this: it returns the item of slot \<open>m_head % MAX\<close>, adds exactly one to
  \<open>m_head\<close>, leaves the array, \<open>m_tail\<close> and the waiters of \<open>m_itemAdded\<close> alone, and
  unblocks exactly one of the threads waiting to insert (if any). This holds whichever
  waiter the library picks. (The three effects happen under the mutex, so no other thread
  sees them apart; that the store comes before the increment shows in the slot used.)
\<close>

theorem insert_remove_effect:
  "(0 < cap \<and> wellformed cap q \<and> live_count q < int cap \<longrightarrow>
      (\<exists>q'. BBQ_insert cap t w q item = Returned q' \<and>
            m_items q' = (m_items q)(nat (m_tail q mod int cap) := item) \<and>
            m_tail q' = m_tail q + 1 \<and> m_head q' = m_head q \<and>
            m_itemRemoved q' = m_itemRemoved q \<and>
            (if m_itemAdded q = [] then m_itemAdded q' = []
             else \<exists>u. u \<in> set (m_itemAdded q) \<and>
                      m_itemAdded q' = removeAll u (m_itemAdded q) \<and>
                      set (m_itemAdded q') = set (m_itemAdded q) - {u})))
   \<and>
   (0 < cap \<and> wellformed cap q \<and> 0 < live_count q \<longrightarrow>
      (\<exists>q'. BBQ_remove cap t w q = Returned (m_items q (nat (m_head q mod int cap)), q') \<and>
            m_items q' = m_items q \<and>
            m_head q' = m_head q + 1 \<and> m_tail q' = m_tail q \<and>
            m_itemAdded q' = m_itemAdded q \<and>
            (if m_itemRemoved q = [] then m_itemRemoved q' = []
             else \<exists>u. u \<in> set (m_itemRemoved q) \<and>
                      m_itemRemoved q' = removeAll u (m_itemRemoved q) \<and>
                      set (m_itemRemoved q') = set (m_itemRemoved q) - {u})))"
proof (intro conjI impI; elim conjE)
  assume a: "0 < cap" "wellformed cap q" "live_count q < int cap"
  have "0 \<le> m_tail q" "canInsert cap q"
    using a(2,3) by (simp_all add: wellformed_def canInsert_def live_count_def)
  from BBQ_insert_proceeds [OF a(1) this, of t w item] notify_one_wakes [where w = w and W = "m_itemAdded q"]
  show "\<exists>q'. BBQ_insert cap t w q item = Returned q' \<and>
            m_items q' = (m_items q)(nat (m_tail q mod int cap) := item) \<and>
            m_tail q' = m_tail q + 1 \<and> m_head q' = m_head q \<and>
            m_itemRemoved q' = m_itemRemoved q \<and>
            (if m_itemAdded q = [] then m_itemAdded q' = []
             else \<exists>u. u \<in> set (m_itemAdded q) \<and>
                      m_itemAdded q' = removeAll u (m_itemAdded q) \<and>
                      set (m_itemAdded q') = set (m_itemAdded q) - {u})"
    by (cases "m_itemAdded q = []") simp_all
next
  assume a: "0 < cap" "wellformed cap q" "0 < live_count q"
  have "0 \<le> m_head q" "canRemove q"
    using a(2,3) by (simp_all add: wellformed_def canRemove_def live_count_def)
  from BBQ_remove_proceeds [OF a(1) this, of t w] notify_one_wakes [where w = w and W = "m_itemRemoved q"]
  show "\<exists>q'. BBQ_remove cap t w q = Returned (m_items q (nat (m_head q mod int cap)), q') \<and>
            m_items q' = m_items q \<and>
            m_head q' = m_head q + 1 \<and> m_tail q' = m_tail q \<and>
            m_itemAdded q' = m_itemAdded q \<and>
            (if m_itemRemoved q = [] then m_itemRemoved q' = []
             else \<exists>u. u \<in> set (m_itemRemoved q) \<and>
                      m_itemRemoved q' = removeAll u (m_itemRemoved q) \<and>
                      set (m_itemRemoved q') = set (m_itemRemoved q) - {u})"
    by (cases "m_itemRemoved q = []") simp_all
qed

text \<open>
  An insert with threads 4 and 6 waiting to remove, of which the library picks the second:
  thread 6 is unblocked and thread 4 goes on waiting. A remove with thread 7 waiting to
  insert. And an insert on the fresh queue, where nobody waits and nobody is unblocked.
\<close>

theorem insert_remove_effect_witness:
  "(\<exists>q'. BBQ_insert 3 0 1
            \<lparr>m_items = (\<lambda>i. 0), m_head = 0, m_tail = 0,
             m_itemAdded = [4, 6], m_itemRemoved = []\<rparr> 10 = Returned q'
         \<and> m_items q' = (\<lambda>i. 0)(0 := 10) \<and> m_tail q' = 1 \<and> m_head q' = 0
         \<and> m_itemAdded q' = [4])
   \<and> (\<exists>q'. BBQ_remove 1 0 0
            \<lparr>m_items = (\<lambda>i. 0)(0 := 5), m_head = 2, m_tail = 3,
             m_itemAdded = [], m_itemRemoved = [7]\<rparr> = Returned (5, q')
         \<and> m_head q' = 3 \<and> m_tail q' = 3 \<and> m_itemRemoved q' = [])
   \<and> (\<exists>q'. BBQ_insert 3 0 0 (BBQ_ctor (\<lambda>i. 0)) 10 = Returned q'
         \<and> m_items q' = (\<lambda>i. 0)(0 := 10) \<and> m_tail q' = 1 \<and> m_itemAdded q' = [])"
proof -
  let ?q1 = "\<lparr>m_items = (\<lambda>i. 0), m_head = 0, m_tail = 0,
              m_itemAdded = [4, 6], m_itemRemoved = []\<rparr>"
  let ?q2 = "\<lparr>m_items = (\<lambda>i. 0)(0 := 5), m_head = 2, m_tail = 3,
              m_itemAdded = [], m_itemRemoved = [7]\<rparr>"
  let ?q3 = "BBQ_ctor (\<lambda>i. 0)"
  have h1: "(0::nat) < 3 \<and> wellformed 3 ?q1 \<and> live_count ?q1 < int 3"
    by (simp add: wellformed_def live_count_def)
  have h2: "(0::nat) < 1 \<and> wellformed 1 ?q2 \<and> 0 < live_count ?q2"
    by (simp add: wellformed_def live_count_def)
  have h3: "(0::nat) < 3 \<and> wellformed 3 ?q3 \<and> live_count ?q3 < int 3"
    by (simp add: wellformed_def live_count_def BBQ_ctor_def)
  have e1: "BBQ_insert 3 0 1 ?q1 10 =
              Returned \<lparr>m_items = (\<lambda>i. 0)(0 := 10), m_head = 0, m_tail = 1,
                         m_itemAdded = [4], m_itemRemoved = []\<rparr>"
    by (simp add: run_eval)
  from insert_remove_effect [of 3 ?q1 0 1 10, THEN conjunct1, THEN mp, OF h1]
  have a: "\<exists>q'. BBQ_insert 3 0 1 ?q1 10 = Returned q'
         \<and> m_items q' = (\<lambda>i. 0)(0 := 10) \<and> m_tail q' = 1 \<and> m_head q' = 0
         \<and> m_itemAdded q' = [4]"
    unfolding e1 by simp
  from insert_remove_effect [of 1 ?q2 0 0, THEN conjunct2, THEN mp, OF h2]
  have b: "\<exists>q'. BBQ_remove 1 0 0 ?q2 = Returned (5, q')
         \<and> m_head q' = 3 \<and> m_tail q' = 3 \<and> m_itemRemoved q' = []"
    by auto
  from insert_remove_effect [of 3 ?q3 0 0 10, THEN conjunct1, THEN mp, OF h3]
  have c: "\<exists>q'. BBQ_insert 3 0 0 ?q3 10 = Returned q'
         \<and> m_items q' = (\<lambda>i. 0)(0 := 10) \<and> m_tail q' = 1 \<and> m_itemAdded q' = []"
    by (auto simp: BBQ_ctor_def)
  from a b c show ?thesis by blast
qed

subsection \<open>C5: blocking\<close>

text \<open>
  C5. From a state in which the queue is full, no insert returns unless a remove has
  returned before it; from a state in which it is empty, no remove returns unless an
  insert has returned before it. On a well-formed queue of positive capacity an insert
  blocks exactly when the queue is full, and exactly when it is not full it returns, with
  its item appended to the contents; a remove blocks exactly when the queue is empty, and
  exactly when it is not empty it returns the head of the contents, which it has taken
  off: no call ends in any other way. And no execution from the freshly constructed queue
  meets undefined behaviour.
\<close>

theorem blocking_correctness:
  "(exec cap s0 as = Some (es, s) \<and> live_count (queue s0) = int cap \<and>
    i < length es \<and> es ! i = Insert_returned t x
      \<longrightarrow> (\<exists>j<i. \<exists>u v. es ! j = Remove_returned u v))
   \<and>
   (exec cap s0 as = Some (es, s) \<and> live_count (queue s0) = 0 \<and>
    i < length es \<and> es ! i = Remove_returned t v
      \<longrightarrow> (\<exists>j<i. \<exists>u y. es ! j = Insert_returned u y))
   \<and>
   (0 < cap \<and> wellformed cap q
      \<longrightarrow> ((\<exists>q'. BBQ_insert cap t w q x = Suspended q') = (live_count q = int cap)) \<and>
          ((\<exists>q'. BBQ_insert cap t w q x = Returned q' \<and>
                 contents cap q' = contents cap q @ [x]) = (live_count q < int cap)) \<and>
          ((\<exists>q'. BBQ_remove cap t w q = Suspended q') = (live_count q = 0)) \<and>
          ((\<exists>v q'. BBQ_remove cap t w q = Returned (v, q') \<and>
                   contents cap q = v # contents cap q') = (0 < live_count q)))
   \<and>
   (exec cap (boot mem) as = Some (es, s)
      \<longrightarrow> Faulted t \<notin> set es)"
proof (intro conjI impI; (elim conjE)?)
  assume "exec cap s0 as = Some (es, s)" "live_count (queue s0) = int cap"
    "i < length es" "es ! i = Insert_returned t x"
  then show "\<exists>j<i. \<exists>u v. es ! j = Remove_returned u v"
    using insert_waits_for_remove [of cap s0 as es s i t x] by simp
next
  assume "exec cap s0 as = Some (es, s)" "live_count (queue s0) = 0"
    "i < length es" "es ! i = Remove_returned t v"
  then show "\<exists>j<i. \<exists>u y. es ! j = Insert_returned u y"
    using remove_waits_for_insert [of cap s0 as es s i t v] by simp
next
  assume c: "0 < cap" and wf: "wellformed cap q"
  show "(\<exists>q'. BBQ_insert cap t w q x = Suspended q') = (live_count q = int cap)"
    by (rule BBQ_insert_Suspended_iff [OF wf])
  show "(\<exists>q'. BBQ_insert cap t w q x = Returned q' \<and>
               contents cap q' = contents cap q @ [x]) = (live_count q < int cap)"
    by (rule BBQ_insert_effect_iff [OF c wf])
  show "(\<exists>q'. BBQ_remove cap t w q = Suspended q') = (live_count q = 0)"
    by (rule BBQ_remove_Suspended_iff [OF wf])
  show "(\<exists>v q'. BBQ_remove cap t w q = Returned (v, q') \<and>
                 contents cap q = v # contents cap q') = (0 < live_count q)"
    by (rule BBQ_remove_effect_iff [OF c wf])
next
  assume "exec cap (boot mem) as = Some (es, s)"
  then show "Faulted t \<notin> set es"
    by (rule exec_defined [OF _ wellformed_boot])
qed

text \<open>
  Capacity 1. On the full queue thread 1 blocks in its insert, and returns after thread 2
  has removed; on the fresh queue thread 1 blocks in its remove, and returns after
  thread 0 has inserted.
\<close>

theorem blocking_correctness_witness:
  "(\<exists>s. exec 1 \<lparr>queue = \<lparr>m_items = (\<lambda>i. 0)(0 := 5), m_head = 0, m_tail = 1,
                            m_itemAdded = [], m_itemRemoved = []\<rparr>,
                   threads = (\<lambda>t. Idle)\<rparr>
             [Call_insert 1 6 0, Call_remove 2 0, Resume 1 0]
           = Some ([Blocked 1, Remove_returned 2 5, Insert_returned 1 6], s))
   \<and> (\<exists>j<2. \<exists>u v. [Blocked 1, Remove_returned 2 5, Insert_returned 1 6] ! j
                      = Remove_returned u v)
   \<and> (\<exists>s. exec 1 (boot (\<lambda>i. 0)) [Call_remove 1 0, Call_insert 0 5 0, Resume 1 0]
           = Some ([Blocked 1, Insert_returned 0 5, Remove_returned 1 5], s))
   \<and> (\<exists>j<2. \<exists>u y. [Blocked 1, Insert_returned 0 5, Remove_returned 1 5] ! j
                      = Insert_returned u y)
   \<and> Faulted 0 \<notin> set [Blocked 1, Insert_returned 0 5, Remove_returned 1 5]
   \<and> (\<exists>q'. BBQ_insert 1 0 0 (BBQ_ctor (\<lambda>i. 0)) 5 = Returned q'
            \<and> contents 1 q' = contents 1 (BBQ_ctor (\<lambda>i. 0)) @ [5])
   \<and> (\<exists>q'. BBQ_remove 1 0 0 (BBQ_ctor (\<lambda>i. 0)) = Suspended q')"
proof -
  let ?full = "\<lparr>queue = \<lparr>m_items = (\<lambda>i. 0)(0 := 5), m_head = 0, m_tail = 1,
                          m_itemAdded = [], m_itemRemoved = []\<rparr>,
                 threads = (\<lambda>t. Idle)\<rparr>"
  let ?as1 = "[Call_insert 1 6 0, Call_remove 2 0, Resume 1 0]"
  let ?es1 = "[Blocked 1, Remove_returned 2 5, Insert_returned 1 6]"
  let ?as2 = "[Call_remove 1 0, Call_insert 0 5 0, Resume 1 0]"
  let ?es2 = "[Blocked 1, Insert_returned 0 5, Remove_returned 1 5]"
  let ?q = "BBQ_ctor (\<lambda>i. 0)"
  obtain s1 where ex1: "exec 1 ?full ?as1 = Some (?es1, s1)"
    by (simp add: queue_eval)
  have full: "live_count (queue ?full) = int 1"
    by (simp add: live_count_def)
  have at1: "2 < length ?es1" "?es1 ! 2 = Insert_returned 1 6"
    by simp_all
  have a: "\<exists>j<2. \<exists>u v. ?es1 ! j = Remove_returned u v"
    using blocking_correctness [of 1 ?full ?as1 ?es1 s1 2 1 6, THEN conjunct1]
      ex1 full at1 by blast
  obtain s2 where ex2: "exec 1 (boot (\<lambda>i. 0)) ?as2 = Some (?es2, s2)"
    by (simp add: queue_eval)
  have empty: "live_count (queue (boot (\<lambda>i. 0))) = 0"
    by (rule live_count_boot)
  have at2: "2 < length ?es2" "?es2 ! 2 = Remove_returned 1 5"
    by simp_all
  have b: "\<exists>j<2. \<exists>u y. ?es2 ! j = Insert_returned u y"
    using blocking_correctness [of 1 "boot (\<lambda>i. 0)" ?as2 ?es2 s2 2 1 _ 5,
        THEN conjunct2, THEN conjunct1]
      ex2 empty at2 by blast
  have pos: "(0::nat) < 1" by simp
  have d: "Faulted 0 \<notin> set ?es2"
    using blocking_correctness [of 1 _ ?as2 ?es2 s2 _ 0 _ _ _ _ "\<lambda>i. 0",
        THEN conjunct2, THEN conjunct2, THEN conjunct2]
      ex2 by blast
  have wf: "wellformed 1 ?q"
    by (rule wellformed_ctor)
  have cnt: "live_count ?q < int 1" "live_count ?q = 0"
    by (simp_all add: live_count_def BBQ_ctor_def)
  have c: "(\<exists>q'. BBQ_insert 1 0 0 ?q 5 = Returned q' \<and> contents 1 q' = contents 1 ?q @ [5])"
    "(\<exists>q'. BBQ_remove 1 0 0 ?q = Suspended q')"
    using blocking_correctness [of 1 _ _ _ _ _ 0 5 _ ?q 0,
        THEN conjunct2, THEN conjunct2, THEN conjunct1]
      wf pos cnt by blast+
  from ex1 a ex2 b d c show ?thesis
    by blast
qed

subsection \<open>C6: the scenario with capacity 3\<close>

text \<open>
  C6. Capacity 3, whatever the array held before. Thread 0 inserts 10, 20 and 30: the
  queue is full. Thread 1 calls insert with 40 and blocks. Thread 0 removes and is
  returned 10, which unblocks thread 1; thread 1 runs on and its insert returns: the queue
  holds 20, 30, 40. Three more removes return 20, 30 and 40, in that order, and leave the
  queue empty; one more remove blocks.
\<close>

theorem scenario_capacity_three:
  "\<exists>s3 s4 s6 s9 s10.
     exec 3 (boot mem) [Call_insert 0 10 0, Call_insert 0 20 0, Call_insert 0 30 0]
       = Some ([Insert_returned 0 10, Insert_returned 0 20, Insert_returned 0 30], s3)
     \<and> live_count (queue s3) = 3 \<and> contents 3 (queue s3) = [10, 20, 30]
     \<and> exec 3 s3 [Call_insert 1 40 0] = Some ([Blocked 1], s4)
     \<and> exec 3 s4 [Call_remove 0 0, Resume 1 0]
       = Some ([Remove_returned 0 10, Insert_returned 1 40], s6)
     \<and> contents 3 (queue s6) = [20, 30, 40]
     \<and> exec 3 s6 [Call_remove 0 0, Call_remove 0 0, Call_remove 0 0]
       = Some ([Remove_returned 0 20, Remove_returned 0 30, Remove_returned 0 40], s9)
     \<and> live_count (queue s9) = 0 \<and> contents 3 (queue s9) = []
     \<and> exec 3 s9 [Call_remove 0 0] = Some ([Blocked 0], s10)"
  by (simp add: queue_eval contents_def upto.simps)

subsection \<open>C9: what the driver checks of its arguments\<close>

text \<open>
  C9, at the argument count and at the arguments \<open>abc\<close> and \<open>xyz\<close>. With one
  argument the driver writes the error line and the two usage lines and exits with
  \<open>EXIT_FAILURE\<close>. With the two arguments \<open>abc\<close> and \<open>xyz\<close> it writes no usage
  message and does not exit: \<open>atoi\<close> reads both as 0, the first thing \<open>main\<close> does
  then is to create producer 1 with the sleep bound 0, and the first round of that
  producer takes the remainder by zero once its queue call has returned (here a queue whose
  insert reports success at position 0).
\<close>

theorem non_numeric_arguments_reach_the_modulo:
  "main [''project1'', ''50''] =
     Exited 1
       [''Error: project1 expected 2 arguments received 1'' @ [CHR 0x0A],
        ''Usage: project1 [sleep time range limit in milliseconds for producing threads]''
          @ [CHR 0x0A],
        ''                [sleep time range limit in milliseconds for consuming threads]''
          @ [CHR 0x0A]]
   \<and> atoi ''abc'' = 0 \<and> atoi ''xyz'' = 0
   \<and> (\<exists>out ws. main [''project1'', ''abc'', ''xyz''] =
         Spawned ((''Created producer: thread 1'' @ [CHR 0x0A]) # out) (Producer 1 0 # ws))
   \<and> producerTask (\<lambda>q r. Some (True, 0, q)) 1 0 [3, 7] ()
       = ([Printed (''Item  1 produced by thread 1'' @ [CHR 0x0A])], Modulo_by_zero)"
proof -
  have a: "atoi ''abc'' = 0" "atoi ''xyz'' = 0"
    by (simp_all add: atoi_def isspace_def isdigit_def to_int_def to_long_def)
  have u: "[1..10] = [1, 2, 3, 4, 5, 6, 7, 8, 9, 10 :: int]"
    by (simp add: upto.simps)
  have one: "main [''project1'', ''50''] =
     Exited 1
       [''Error: project1 expected 2 arguments received 1'' @ [CHR 0x0A],
        ''Usage: project1 [sleep time range limit in milliseconds for producing threads]''
          @ [CHR 0x0A],
        ''                [sleep time range limit in milliseconds for consuming threads]''
          @ [CHR 0x0A]]"
    by (simp add: main_usage EXIT_FAILURE_def show_int_def)
  have two: "\<exists>out ws. main [''project1'', ''abc'', ''xyz''] =
         Spawned ((''Created producer: thread 1'' @ [CHR 0x0A]) # out) (Producer 1 0 # ws)"
    by (simp add: main_spawns a u show_int_def)
  have three: "producerTask (\<lambda>q r. Some (True, 0, q)) 1 0 [3, 7] ()
       = ([Printed (''Item  1 produced by thread 1'' @ [CHR 0x0A])], Modulo_by_zero)"
    by (simp add: c_mod_def produced_line_def show_int2_def show_int_def)
  from one a two three show ?thesis by blast
qed

subsection \<open>C10: the remainder by the sleep bound\<close>

text \<open>
  C10, as amended. The remainder \<open>rand() % max_sleep_time_ms\<close> is defined exactly when
  the bound is not 0. With a bound other than 0, no round of a worker loop takes a
  remainder by zero. With the bound 0, the first round of either loop does, as soon as its
  queue call returns: nothing guards the remainder. And the bound 0 is reachable from the
  command line: \<open>atoi\<close> gives 0 for an argument that starts with a character that is
  neither white space, a sign nor a digit, and \<open>main\<close> then creates producer 1
  (consumer 11) with the bound 0.
\<close>

theorem sleep_modulo_defined_iff_nonzero:
  "((c_mod r m = None) = (m = 0))
   \<and> (m \<noteq> 0 \<longrightarrow> snd (producerTask tsq_insert n m rs q) \<noteq> Modulo_by_zero
                \<and> snd (consumerTask tsq_remove n m rs q) \<noteq> Modulo_by_zero)
   \<and> (tsq_insert q r1 \<noteq> None \<longrightarrow>
        snd (producerTask tsq_insert n 0 (r1 # r2 # rs) q) = Modulo_by_zero)
   \<and> (tsq_remove q \<noteq> None \<longrightarrow>
        snd (consumerTask tsq_remove n 0 (r1 # rs) q) = Modulo_by_zero)
   \<and> (\<not> isspace c \<and> \<not> isdigit c \<and> c \<noteq> CHR ''-'' \<and> c \<noteq> CHR ''+'' \<longrightarrow> atoi (c # cs) = 0)
   \<and> (length argv = 3 \<and> atoi (argv ! 1) = 0 \<longrightarrow>
        (\<exists>out ws. main argv = Spawned out ws \<and> Producer 1 0 \<in> set ws))
   \<and> (length argv = 3 \<and> atoi (argv ! 2) = 0 \<longrightarrow>
        (\<exists>out ws. main argv = Spawned out ws \<and> Consumer 11 0 \<in> set ws))"
proof (intro conjI impI; (elim conjE)?)
  show "(c_mod r m = None) = (m = 0)"
    by (rule c_mod_None)
next
  assume "m \<noteq> 0"
  then show "snd (producerTask tsq_insert n m rs q) \<noteq> Modulo_by_zero"
    and "snd (consumerTask tsq_remove n m rs q) \<noteq> Modulo_by_zero"
    by (rule producerTask_nonzero, rule consumerTask_nonzero)
next
  assume "tsq_insert q r1 \<noteq> None"
  then show "snd (producerTask tsq_insert n 0 (r1 # r2 # rs) q) = Modulo_by_zero"
    by (rule producerTask_zero)
next
  assume "tsq_remove q \<noteq> None"
  then show "snd (consumerTask tsq_remove n 0 (r1 # rs) q) = Modulo_by_zero"
    by (rule consumerTask_zero)
next
  assume "\<not> isspace c" "\<not> isdigit c" "c \<noteq> CHR ''-''" "c \<noteq> CHR ''+''"
  then show "atoi (c # cs) = 0"
    by (rule atoi_no_number)
next
  assume "length argv = 3" "atoi (argv ! 1) = 0"
  then show "\<exists>out ws. main argv = Spawned out ws \<and> Producer 1 0 \<in> set ws"
    using main_spawns_producer [of argv] by auto
next
  assume "length argv = 3" "atoi (argv ! 2) = 0"
  then show "\<exists>out ws. main argv = Spawned out ws \<and> Consumer 11 0 \<in> set ws"
    using main_spawns_producer [of argv] by auto
qed

text \<open>
  The argument \<open>abc\<close> gives producer 1 the bound 0, and its first round takes the
  remainder by zero; a consumer with the bound 50 does not.
\<close>

theorem sleep_modulo_defined_iff_nonzero_witness:
  "atoi ''abc'' = 0
   \<and> (\<exists>out ws. main [''project1'', ''abc'', ''50''] = Spawned out ws \<and> Producer 1 0 \<in> set ws)
   \<and> snd (producerTask (\<lambda>q r. Some (True, 0, q)) 1 0 [3, 7] ()) = Modulo_by_zero
   \<and> snd (consumerTask (\<lambda>q. Some (True, 3, 0, q)) 11 50 [3, 7] ()) \<noteq> Modulo_by_zero"
proof -
  let ?ins = "\<lambda>(q::unit) (r::int). Some (True, 0::int, q)"
  let ?rem = "\<lambda>(q::unit). Some (True, 3::int, 0::int, q)"
  let ?argv = "[''project1'', ''abc'', ''50'']"
  have c: "\<not> isspace CHR ''a'' \<and> \<not> isdigit CHR ''a'' \<and> CHR ''a'' \<noteq> CHR ''-''
           \<and> CHR ''a'' \<noteq> CHR ''+''"
    by (simp add: isspace_def isdigit_def)
  have a: "atoi ''abc'' = 0"
    by (rule sleep_modulo_defined_iff_nonzero [where c = "CHR ''a''" and cs = "''bc''",
          THEN conjunct2, THEN conjunct2, THEN conjunct2, THEN conjunct2, THEN conjunct1,
          THEN mp, OF c])
  have l: "length ?argv = 3 \<and> atoi (?argv ! 1) = 0"
    using a by simp
  have b: "\<exists>out ws. main ?argv = Spawned out ws \<and> Producer 1 0 \<in> set ws"
    by (rule sleep_modulo_defined_iff_nonzero [where argv = ?argv,
          THEN conjunct2, THEN conjunct2, THEN conjunct2, THEN conjunct2, THEN conjunct2,
          THEN conjunct1, THEN mp, OF l])
  have r: "?ins () 3 \<noteq> None" by simp
  have z: "snd (producerTask ?ins 1 0 [3, 7] ()) = Modulo_by_zero"
    by (rule sleep_modulo_defined_iff_nonzero
          [where tsq_insert = ?ins and q = "()" and ?r1.0 = 3 and ?r2.0 = 7 and rs = "[]"
             and n = 1,
           THEN conjunct2, THEN conjunct2, THEN conjunct1, THEN mp, OF r])
  have nz: "(50::int) \<noteq> 0" by simp
  have d: "snd (consumerTask ?rem 11 50 [3, 7] ()) \<noteq> Modulo_by_zero"
    by (rule sleep_modulo_defined_iff_nonzero
          [where tsq_remove = ?rem and q = "()" and m = 50 and rs = "[3, 7]" and n = 11,
           THEN conjunct2, THEN conjunct1, THEN mp, OF nz, THEN conjunct2])
  from a b z d show ?thesis by blast
qed

text \<open>
  Against C10 as stated ("well-defined only under the precondition
  \<open>max_sleep_time_ms > 0\<close>"): the argument \<open>-5\<close> gives the bound -5, which is not
  positive, and the remainder is defined: 7 % -5 is 2, and the loop sleeps and goes on.
\<close>

theorem negative_sleep_bound_is_defined:
  "atoi ''-5'' = -5
   \<and> c_mod 7 (-5) = Some 2
   \<and> producerTask (\<lambda>q r. Some (False, 0, q)) 1 (-5) [3, 7] () = ([Slept 2], Still_looping)
   \<and> (case main [''project1'', ''-5'', ''-5''] of
         Exited status out \<Rightarrow> False
       | Spawned out ws \<Rightarrow> hd ws = Producer 1 (-5))"
proof -
  have a: "atoi ''-5'' = -5"
    by (simp add: atoi_def isspace_def isdigit_def to_int_def to_long_def)
  have u: "[1..10] = [1, 2, 3, 4, 5, 6, 7, 8, 9, 10 :: int]"
    by (simp add: upto.simps)
  have m: "c_mod 7 (-5) = Some 2"
    by (simp add: c_mod_def)
  show ?thesis
    by (simp add: a m main_spawns u)
qed

end
